theory Spec2Isabelle
  imports Main "HOL-Library.Multiset"
begin

section \<open>Values shared by the whole file\<close>

text \<open>
  Go's \<open>error\<close> values: an error is its message, or the \<open>cli.MultiError\<close> that
  \<open>cli.NewMultiError\<close> builds from a list of errors. The functions of package \<open>msg\<close>
  print; what they are called with is kept as a list of events, the format string first
  and then the arguments, which are strings or errors.
\<close>

datatype error = Err string | MultiError "error list"

datatype arg = S string | E error

datatype msg =
    Debug string "arg list"
  | Info string "arg list"
  | Warn string "arg list"
  | Error string "arg list"

text \<open>
  \<open>cfg.Dependency\<close>, with the fields that \<open>repo/installer.go\<close> reads or writes.
\<close>

record Dependency =
  Name :: string
  Reference :: string
  Pin :: string
  Repository :: string
  VcsType :: string
  Subpackages :: "string list"
  Arch :: "string list"
  Os :: "string list"

section \<open>The package aggregator\<close>

text \<open>
  \<open>depsFromPackages\<close> (installer.go, lines 376 to 403). The slice \<open>deps\<close> holds every
  record the loop allocates, in allocation order, so the pointer \<open>dd\<close> kept in \<open>seen\<close> is
  the index of its record in \<open>deps\<close>: appending a subpackage through \<open>seen[rr]\<close> updates
  the record the slice holds. \<open>util.NormalizeName\<close> is taken as the parameter \<open>N\<close>.
\<close>

fun depsLoop ::
  "(string \<Rightarrow> string \<times> string) \<Rightarrow> string list \<Rightarrow> (string \<rightharpoonup> nat) \<Rightarrow> Dependency list
    \<Rightarrow> Dependency list" where
  "depsLoop N [] seen deps = deps"
| "depsLoop N (p # ps) seen deps =
     (case N p of (rr, sp) \<Rightarrow>
        (case seen rr of
           None \<Rightarrow>
             (let subpkg = (if sp \<noteq> [] then [sp] else []);
                  dd = \<lparr>Name = rr, Reference = [], Pin = [], Repository = [], VcsType = [],
                        Subpackages = subpkg, Arch = [], Os = []\<rparr>
              in depsLoop N ps (seen(rr \<mapsto> length deps)) (deps @ [dd]))
         | Some i \<Rightarrow>
             (if sp \<noteq> []
              then depsLoop N ps seen
                     (deps[i := (deps ! i)\<lparr>Subpackages := Subpackages (deps ! i) @ [sp]\<rparr>])
              else depsLoop N ps seen deps)))"

definition depsFromPackages :: "(string \<Rightarrow> string \<times> string) \<Rightarrow> string list \<Rightarrow> Dependency list" where
  "depsFromPackages N pkgs = depsLoop N pkgs Map.empty []"

text \<open>
  The two sequences the aggregator's contract speaks of: the distinct elements of a list
  in first-seen order, and the non-empty subpackage suffixes that the paths of one root
  contribute, in input order.
\<close>

fun firstSeen :: "'a list \<Rightarrow> 'a list" where
  "firstSeen [] = []"
| "firstSeen (x # xs) = x # removeAll x (firstSeen xs)"

definition suffixesOf :: "(string \<Rightarrow> string \<times> string) \<Rightarrow> string list \<Rightarrow> string \<Rightarrow> string list" where
  "suffixesOf N pkgs r = filter (\<lambda>sp. sp \<noteq> []) (map snd (filter (\<lambda>q. fst q = r) (map N pkgs)))"


text \<open>
  A stand-in for \<open>util.NormalizeName\<close> in the examples below: the root is the first
  segment of the path and the subpackage is what follows the first slash.
\<close>

definition splitRoot :: "string \<Rightarrow> string \<times> string" where
  "splitRoot p =
     (takeWhile (\<lambda>c. c \<noteq> CHR ''/'') p, drop 1 (dropWhile (\<lambda>c. c \<noteq> CHR ''/'') p))"

section \<open>What the installer calls outside \<open>repo/installer.go\<close>\<close>

text \<open>
  \<open>cfg.Lock\<close>, \<open>cfg.Lockfile\<close> and \<open>cfg.Config\<close>, as far as \<open>Install\<close> reads them.
  Their fields carry the name of the struct in front where \<open>Dependency\<close> has a field of
  the same name.
\<close>

record Lock =
  LockName :: string
  Version :: string
  LockRepository :: string
  LockVcsType :: string
  LockSubpackages :: "string list"
  LockArch :: "string list"
  LockOs :: "string list"

record Lockfile =
  LockImports :: "Lock list"
  LockDevImports :: "Lock list"

record Config =
  ConfigName :: string
  Imports :: "Dependency list"
  DevImports :: "Dependency list"

text \<open>
  The file system, the environment and the remote repositories are the world \<open>'w\<close>.
  The functions of other packages are parameters, gathered in one record; those with an
  effect take the world and return the new one.
  \<^item> \<open>GetRootFromPackage\<close> is \<open>util.GetRootFromPackage\<close>;
  \<^item> \<open>HasIgnore\<close> is \<open>HasIgnore\<close> of the \<open>Config\<close> that both handlers hold;
  \<^item> \<open>Join\<close> is \<open>filepath.Join\<close> on two arguments;
  \<^item> \<open>Import\<close> is \<open>importer.Import\<close>: found, the requirements read, an error;
  \<^item> \<open>VcsVersion\<close> is \<open>VcsVersion\<close>: it takes the record its pointer argument points
    to and returns the record as it leaves it (it stores the revision in \<open>Pin\<close>);
  \<^item> \<open>Stat\<close> tells whether \<open>os.Stat\<close> returns no error;
  \<^item> \<open>VcsGet\<close>, \<open>Gopaths\<close> (\<open>gpath.Gopaths\<close>), \<open>MkdirAll\<close> (\<open>os.MkdirAll\<close>),
    \<open>CopyDir\<close> (\<open>gpath.CopyDir\<close>), \<open>Vendor\<close> (\<open>gpath.Vendor\<close>) and \<open>DeDupe\<close>
    (\<open>Config.DeDupe\<close>) are the functions of these names;
  \<^item> \<open>ConcurrentUpdate\<close> stands, where \<open>Install\<close> calls it, for the outcome of the
    dispatcher of lines 288 to 333: the records as the workers leave them and the error
    it returns. The dispatcher itself is the transition system further down.
\<close>

record 'w externals =
  GetRootFromPackage :: "string \<Rightarrow> string"
  HasIgnore :: "string \<Rightarrow> bool"
  Join :: "string \<Rightarrow> string \<Rightarrow> string"
  Import :: "'w \<Rightarrow> string \<Rightarrow> bool \<times> Dependency list \<times> error option"
  VcsVersion :: "'w \<Rightarrow> Dependency \<Rightarrow> string \<Rightarrow> 'w \<times> Dependency \<times> error option"
  Stat :: "'w \<Rightarrow> string \<Rightarrow> bool"
  VcsGet :: "'w \<Rightarrow> Dependency \<Rightarrow> string \<Rightarrow> string \<Rightarrow> bool \<Rightarrow> bool \<Rightarrow> bool \<Rightarrow> 'w \<times> error option"
  Gopaths :: "'w \<Rightarrow> string list"
  MkdirAll :: "'w \<Rightarrow> string \<Rightarrow> 'w \<times> error option"
  CopyDir :: "'w \<Rightarrow> string \<Rightarrow> string \<Rightarrow> 'w \<times> error option"
  Vendor :: "'w \<Rightarrow> error + string"
  DeDupe :: "Config \<Rightarrow> Config"
  ConcurrentUpdate :: "'w \<Rightarrow> Dependency list \<Rightarrow> string \<Rightarrow> 'w \<times> Dependency list \<times> error option"

section \<open>Install\<close>

text \<open>
  \<open>Installer.Install\<close> (lines 70 to 118). The result is the pair the Go function
  returns, the world it leaves and the messages it prints. Both calls of
  \<open>ConcurrentUpdate\<close> are statements: the error each returns is not bound to anything.
\<close>

definition fromLock :: "Lock \<Rightarrow> Dependency" where
  "fromLock v =
     \<lparr>Name = LockName v, Reference = Version v, Pin = [], Repository = LockRepository v,
      VcsType = LockVcsType v, Subpackages = LockSubpackages v, Arch = LockArch v,
      Os = LockOs v\<rparr>"

definition Install ::
  "'w externals \<Rightarrow> 'w \<Rightarrow> Lockfile \<Rightarrow> Config \<Rightarrow> (Config \<times> error option) \<times> 'w \<times> msg list" where
  "Install X w lock conf =
     (case Vendor X w of
        Inl err \<Rightarrow> ((conf, Some err), w, [])
      | Inr cwd \<Rightarrow>
          (let newConf = DeDupe X
                 \<lparr>ConfigName = ConfigName conf,
                  Imports = map fromLock (LockImports lock),
                  DevImports = map fromLock (LockDevImports lock)\<rparr>
           in if length (Imports newConf) = 0
              then ((newConf, None), w,
                    [Info (''No dependencies found. Nothing installed.'' @ [CHR 0x0A]) []])
              else
                (case ConcurrentUpdate X w (Imports newConf) cwd of (w1, imps, _) \<Rightarrow>
                  (case ConcurrentUpdate X w1 (DevImports newConf) cwd of (w2, devs, _) \<Rightarrow>
                     ((newConf\<lparr>Imports := imps, DevImports := devs\<rparr>, None), w2, [])))))"

section \<open>The missing package handler\<close>

record MissingPackageHandler =
  destination :: string
  home :: string
  cache :: bool
  cacheGopath :: bool
  useGopath :: bool
  RootPackage :: string

text \<open>
  \<open>NotFound\<close> (lines 418 to 444) and \<open>OnGopath\<close> (lines 446 to 482). Each returns the
  pair of the Go function, the world it leaves and the messages it prints.
\<close>

definition NotFound ::
  "'w externals \<Rightarrow> MissingPackageHandler \<Rightarrow> 'w \<Rightarrow> string \<Rightarrow> (bool \<times> error option) \<times> 'w \<times> msg list" where
  "NotFound X m w pkg =
     (let root = GetRootFromPackage X pkg in
      if root = MissingPackageHandler.RootPackage m then ((False, None), w, [])
      else if HasIgnore X root \<or> HasIgnore X pkg then ((False, None), w, [])
      else
        (let dest = Join X (destination m) root in
         if Stat X w dest then ((True, None), w, [])
         else
           (let fetching = Info ''Fetching %s into %s'' [S pkg, S (destination m)];
                d = \<lparr>Name = root, Reference = [], Pin = [], Repository = [], VcsType = [],
                     Subpackages = [], Arch = [], Os = []\<rparr>
            in case VcsGet X w d dest (home m) (cache m) (cacheGopath m) (useGopath m) of
                 (w', Some err) \<Rightarrow> ((False, Some err), w', [fetching])
               | (w', None) \<Rightarrow> ((True, None), w', [fetching]))))"

fun gopathLoop ::
  "'w externals \<Rightarrow> 'w \<Rightarrow> string \<Rightarrow> string \<Rightarrow> string list \<Rightarrow> msg list
    \<Rightarrow> (bool \<times> error option) \<times> 'w \<times> msg list" where
  "gopathLoop X w pkg dest [] ms =
     ((False, None), w,
      ms @ [Error ''Could not locate %s on the GOPATH, though it was found before.'' [S pkg]])"
| "gopathLoop X w pkg dest (gp # gps) ms =
     (let src = Join X gp pkg in
      if Stat X w src
      then (case MkdirAll X w dest of
              (w1, Some err) \<Rightarrow> ((False, Some err), w1, ms)
            | (w1, None) \<Rightarrow>
                (case CopyDir X w1 src dest of
                   (w2, Some err) \<Rightarrow> ((False, Some err), w2, ms)
                 | (w2, None) \<Rightarrow> ((True, None), w2, ms)))
      else gopathLoop X w pkg dest gps ms)"

definition OnGopath ::
  "'w externals \<Rightarrow> MissingPackageHandler \<Rightarrow> 'w \<Rightarrow> string \<Rightarrow> (bool \<times> error option) \<times> 'w \<times> msg list" where
  "OnGopath X m w pkg =
     (if \<not> useGopath m then NotFound X m w pkg
      else
        (let root = GetRootFromPackage X pkg in
         if root = MissingPackageHandler.RootPackage m then ((False, None), w, [])
         else if HasIgnore X root \<or> HasIgnore X pkg then ((False, None), w, [])
         else
           (let copying = Info ''Copying package %s from the GOPATH.'' [S pkg];
                dest = Join X (destination m) pkg
            in gopathLoop X w pkg dest (Gopaths X w) [copying])))"

section \<open>The version handler\<close>

text \<open>
  \<open>VersionHandler\<close> (lines 485 to 508). \<open>Deps\<close> and \<open>Use\<close> map a root to a pointer to a
  \<open>cfg.Dependency\<close>: a pointer is an address, an index into \<open>heap\<close>, the list of the
  records allocated so far. \<open>Imported\<close> and \<open>Conflicts\<close> are maps to \<open>bool\<close> that only
  ever store \<open>true\<close> and are read with the zero value \<open>false\<close> for a missing key: sets.
  The state of a handler is the struct together with the heap its pointers point into and
  the messages printed so far.
\<close>

record VersionHandler =
  Deps :: "string \<rightharpoonup> nat"
  Use :: "string \<rightharpoonup> nat"
  Imported :: "string set"
  Destination :: string
  RootPackage :: string
  Conflicts :: "string set"

record state = VersionHandler +
  heap :: "Dependency list"
  out :: "msg list"

text \<open>
  The handler as \<open>Update\<close> and \<open>List\<close> build it (lines 160 to 167 and 227 to 234): the four
  maps are empty. The destination and the root package are left to the caller.
\<close>

definition newVersionHandler :: "string \<Rightarrow> string \<Rightarrow> state" where
  "newVersionHandler dest rp =
     \<lparr>Deps = Map.empty, Use = Map.empty, Imported = {}, Destination = dest, RootPackage = rp,
      Conflicts = {}, heap = [], out = []\<rparr>"

text \<open>
  The loop of lines 540 to 544 over the pointers that \<open>Import\<close> returned: a requirement
  with a reference is stored in \<open>Use\<close> under its name, whatever \<open>Use\<close> and \<open>Deps\<close> hold.
\<close>

fun useLoop :: "Dependency list \<Rightarrow> nat list \<Rightarrow> (string \<rightharpoonup> nat) \<Rightarrow> (string \<rightharpoonup> nat)" where
  "useLoop h [] use = use"
| "useLoop h (dep # deps) use =
     useLoop h deps (if Reference (h ! dep) \<noteq> [] then use(Name (h ! dep) \<mapsto> dep) else use)"

text \<open>
  Lines 529 to 549, the scan of a root that has not been scanned: the result is the new
  state and the error \<open>e\<close>. The records that \<open>Import\<close> returns are new objects, so they
  are appended to the heap and their pointers are the new addresses, in order.
\<close>

definition scanRoot :: "'w externals \<Rightarrow> 'w \<Rightarrow> state \<Rightarrow> string \<Rightarrow> state \<times> error option" where
  "scanRoot X w d root =
     (if root \<notin> Imported d
      then
        (let d1 = d\<lparr>Imported := insert root (Imported d)\<rparr>;
             p = Join X (Destination d1) root
         in case Import X w p of (f, deps, err) \<Rightarrow>
              (let base = length (heap d1);
                   d2 = d1\<lparr>heap := heap d1 @ deps\<rparr>
               in if f \<and> err = None
                  then (d2\<lparr>Use := useLoop (heap d2) [base ..< base + length deps] (Use d2)\<rparr>, None)
                  else (case err of
                          Some er \<Rightarrow>
                            (d2\<lparr>out := out d2 @
                                  [Error ''Unable to import from %s. Err: %s'' [S root, E er]]\<rparr>,
                             Some er)
                        | None \<Rightarrow> (d2, None))))
      else (d, None))"

text \<open>
  The string that \<open>fmt.Sprintf\<close> builds at line 558.
\<close>

definition conflictMsg :: "string \<Rightarrow> string \<Rightarrow> string \<Rightarrow> string" where
  "conflictMsg root pin ref =
     ''Conflict: '' @ root @ '' version is '' @ pin @ '', but also asked for '' @ ref @ [CHR 0x0A]"

text \<open>
  The condition of lines 556 and 557 and the message of line 558. The outer \<open>None\<close> is
  the panic of Go on a nil pointer: \<open>d.Use[root]\<close> is read first, and \<open>d.Deps[root]\<close> only
  when the first conjunct holds. \<open>Some None\<close> is no conflict.
\<close>

definition conflictOf :: "state \<Rightarrow> string \<Rightarrow> string option option" where
  "conflictOf d root =
     (case Use d root of
        None \<Rightarrow> None
      | Some u \<Rightarrow>
          if Reference (heap d ! u) = [] then Some None
          else
            (case Deps d root of
               None \<Rightarrow> None
             | Some p \<Rightarrow>
                 if Reference (heap d ! u) \<noteq> Pin (heap d ! p)
                    \<and> Reference (heap d ! u) \<noteq> Reference (heap d ! p)
                 then Some (Some (conflictMsg root (Pin (heap d ! p)) (Reference (heap d ! u))))
                 else Some None))"

text \<open>
  Lines 552 to 566, the visit of a root that is pinned: \<open>v\<close> is the pointer read at line
  525 and \<open>e\<close> the error of the scan.
\<close>

definition alreadyPinned :: "state \<Rightarrow> string \<Rightarrow> string \<Rightarrow> nat \<Rightarrow> error option \<Rightarrow> (state \<times> error option) option" where
  "alreadyPinned d pkg root v e =
     (let d1 = d\<lparr>out := out d @
                   [Debug ''Package %s is already pinned to %q'' [S pkg, S (Pin (heap d ! v))]]\<rparr>
      in case conflictOf d1 root of
           None \<Rightarrow> None
         | Some None \<Rightarrow> Some (d1, e)
         | Some (Some s) \<Rightarrow>
             if s \<notin> Conflicts d1
             then Some (d1\<lparr>Conflicts := insert s (Conflicts d1), out := out d1 @ [Warn s []]\<rparr>, e)
             else Some (d1, e))"

text \<open>
  Lines 568 to 580, the first visit of a root that is not pinned. \<open>VcsVersion\<close> writes
  through the pointer \<open>dep\<close>, and line 579 is reached whether it fails or not.
\<close>

definition firstPin ::
  "'w externals \<Rightarrow> 'w \<Rightarrow> state \<Rightarrow> string \<Rightarrow> error option \<Rightarrow> state \<times> error option \<times> 'w" where
  "firstPin X w d root e =
     (case Use d root of
        None \<Rightarrow>
          (d\<lparr>out := out d @
                [Debug ''Unable to set version on %s, version to set unknown'' [S root]]\<rparr>, e, w)
      | Some dep \<Rightarrow>
          (case VcsVersion X w (heap d ! dep) (Destination d) of (w', dep', err) \<Rightarrow>
             (let d1 = d\<lparr>heap := (heap d)[dep := dep']\<rparr> in
              case err of
                Some er \<Rightarrow>
                  (d1\<lparr>out := out d1 @
                         [Warn ''Unable to set verion on %s to %s. Err: ''
                            [S root, S (Reference (heap d1 ! dep)), E er]],
                      Deps := (Deps d1)(root \<mapsto> dep)\<rparr>, Some er, w')
              | None \<Rightarrow> (d1\<lparr>Deps := (Deps d1)(root \<mapsto> dep)\<rparr>, e, w'))))"

text \<open>
  The test of lines 518 to 523 that ends a call at once, for the root package \<open>rp\<close> of
  the handler.
\<close>

definition skipped :: "'w externals \<Rightarrow> string \<Rightarrow> string \<Rightarrow> bool" where
  "skipped X rp pkg \<longleftrightarrow>
     GetRootFromPackage X pkg = rp
     \<or> HasIgnore X (GetRootFromPackage X pkg) \<or> HasIgnore X pkg"

text \<open>
  \<open>SetVersion\<close> (lines 514 to 581): the new state, the error returned and the world left,
  or \<open>None\<close> when the call panics.
\<close>

definition SetVersion ::
  "'w externals \<Rightarrow> 'w \<Rightarrow> state \<Rightarrow> string \<Rightarrow> (state \<times> error option \<times> 'w) option" where
  "SetVersion X w d pkg =
     (let root = GetRootFromPackage X pkg in
      if root = RootPackage d then Some (d, None, w)
      else if HasIgnore X root \<or> HasIgnore X pkg then Some (d, None, w)
      else
        (let found = Deps d root in
         case scanRoot X w d root of (d1, e) \<Rightarrow>
           (case found of
              Some v \<Rightarrow>
                (case alreadyPinned d1 pkg root v e of
                   None \<Rightarrow> None
                 | Some (d2, e2) \<Rightarrow> Some (d2, e2, w))
            | None \<Rightarrow> Some (firstPin X w d1 root e))))"

text \<open>
  A run of calls on one handler. Between two calls the walker and the missing package
  handler change the file system, so each call comes with the world it sees, and the
  world it leaves is not passed on: a run is any list of worlds and import paths.
\<close>

fun SetVersions :: "'w externals \<Rightarrow> state \<Rightarrow> ('w \<times> string) list \<Rightarrow> state option" where
  "SetVersions X d [] = Some d"
| "SetVersions X d ((w, pkg) # calls) =
     (case SetVersion X w d pkg of
        None \<Rightarrow> None
      | Some (d', _) \<Rightarrow> SetVersions X d' calls)"

text \<open>
  A call observes the conflict \<open>s\<close> when it is not skipped, finds its root pinned and,
  after its scan, finds the condition of lines 556 and 557 true with the message \<open>s\<close>.
\<close>

definition observes :: "'w externals \<Rightarrow> 'w \<Rightarrow> state \<Rightarrow> string \<Rightarrow> string \<Rightarrow> bool" where
  "observes X w d pkg s \<longleftrightarrow>
     \<not> skipped X (RootPackage d) pkg
     \<and> Deps d (GetRootFromPackage X pkg) \<noteq> None
     \<and> conflictOf (fst (scanRoot X w d (GetRootFromPackage X pkg))) (GetRootFromPackage X pkg)
         = Some (Some s)"

text \<open>
  The invariant of a handler's pointers: they point into the heap, no object is the
  candidate of two roots, an object that is the pin of a root is the candidate of no other
  root, and every pinned root has a candidate.
\<close>

definition wf :: "state \<Rightarrow> bool" where
  "wf d \<longleftrightarrow>
     (\<forall>r a. Use d r = Some a \<longrightarrow> a < length (heap d))
     \<and> (\<forall>r a. Deps d r = Some a \<longrightarrow> a < length (heap d))
     \<and> (\<forall>r r' a. Use d r = Some a \<longrightarrow> Use d r' = Some a \<longrightarrow> r = r')
     \<and> (\<forall>r r' a. Deps d r = Some a \<longrightarrow> Use d r' = Some a \<longrightarrow> r = r')
     \<and> dom (Deps d) \<subseteq> dom (Use d)"

text \<open>
  The invariant of the conflict warnings: the set of reported conflicts holds exactly the
  conflict messages printed, and none was printed twice.
\<close>

definition logOk :: "state \<Rightarrow> bool" where
  "logOk d \<longleftrightarrow>
     (\<forall>s. s \<in> Conflicts d \<longleftrightarrow> Warn s [] \<in> set (out d))
     \<and> (\<forall>s. count_list (out d) (Warn s []) \<le> 1)"

text \<open>
  The externals of the examples. The world is the list of the paths that exist. A root is
  the first segment of a path, the name \<open>ignored\<close> is on the ignore list, the checkout of
  \<open>a\<close> asks for \<open>b\<close> at \<open>v1\<close> and that of \<open>c\<close> for \<open>b\<close> at \<open>v2\<close>, the manifest of \<open>bad\<close>
  cannot be read, setting a version stores the revision \<open>rev-\<close> followed by the reference
  and fails on the reference \<open>gone\<close>, and the update of a record named \<open>broken\<close> fails.
\<close>

definition requirement :: "string \<Rightarrow> string \<Rightarrow> Dependency" where
  "requirement n r =
     \<lparr>Name = n, Reference = r, Pin = [], Repository = [], VcsType = [], Subpackages = [],
      Arch = [], Os = []\<rparr>"

definition X0 :: "string list externals" where
  "X0 =
     \<lparr>GetRootFromPackage = (\<lambda>p. fst (splitRoot p)),
      HasIgnore = (\<lambda>n. n = ''ignored''),
      Join = (\<lambda>a b. a @ ''/'' @ b),
      Import = (\<lambda>w p.
         if p = ''vendor/a'' then (True, [requirement ''b'' ''v1''], None)
         else if p = ''vendor/c'' then (True, [requirement ''b'' ''v2''], None)
         else if p = ''vendor/e'' then (True, [requirement ''f'' ''gone''], None)
         else if p = ''vendor/bad'' then (False, [], Some (Err ''cannot read manifest''))
         else (False, [], None)),
      VcsVersion = (\<lambda>w dep dest.
         if Reference dep = ''gone'' then (w, dep, Some (Err ''no such revision''))
         else (w, dep\<lparr>Pin := ''rev-'' @ Reference dep\<rparr>, None)),
      Stat = (\<lambda>w p. p \<in> set w),
      VcsGet = (\<lambda>w dep dest h c cg ug. (dest # w, None)),
      Gopaths = (\<lambda>w. [''/go/src'']),
      MkdirAll = (\<lambda>w p. (p # w, None)),
      CopyDir = (\<lambda>w src dst. (dst # w, None)),
      Vendor = (\<lambda>w. Inr ''vendor''),
      DeDupe = (\<lambda>c. c),
      ConcurrentUpdate = (\<lambda>w deps cwd.
         (map (\<lambda>dep. cwd @ ''/'' @ Name dep) (filter (\<lambda>dep. Name dep \<noteq> ''broken'') deps) @ w,
          deps,
          if list_ex (\<lambda>dep. Name dep = ''broken'') deps then Some (Err ''update failed'')
          else None))\<rparr>"

text \<open>
  The handler of the examples, and its state after a run of calls.
\<close>

definition v0 :: state where
  "v0 = newVersionHandler ''vendor'' ''me''"

definition run0 :: "(string list \<times> string) list \<Rightarrow> state" where
  "run0 calls = the (SetVersions X0 v0 calls)"

definition m0 :: MissingPackageHandler where
  "m0 = \<lparr>destination = ''vendor'', home = ''home'', cache = False, cacheGopath = False,
          useGopath = True, RootPackage = ''me''\<rparr>"

definition lock0 :: Lockfile where
  "lock0 =
     \<lparr>LockImports =
        [\<lparr>LockName = ''broken'', Version = ''v1'', LockRepository = [], LockVcsType = [],
          LockSubpackages = [], LockArch = [], LockOs = []\<rparr>],
      LockDevImports = []\<rparr>"

definition conf0 :: Config where
  "conf0 = \<lparr>ConfigName = ''me'', Imports = [], DevImports = []\<rparr>"

text \<open>
  The invariant of the aggregator's loop: the names in \<open>deps\<close> are distinct and \<open>seen\<close>
  maps each of them to the index of its record.
\<close>

definition seenOk :: "(string \<rightharpoonup> nat) \<Rightarrow> Dependency list \<Rightarrow> bool" where
  "seenOk seen deps \<longleftrightarrow>
     distinct (map Name deps)
     \<and> (\<forall>r i. seen r = Some i \<longleftrightarrow> (i < length deps \<and> Name (deps ! i) = r))"

section \<open>The concurrent update dispatcher\<close>

text \<open>
  \<open>ConcurrentUpdate\<close> (lines 288 to 333) as a transition system. The constant
  \<open>concurrentWorkers\<close> is declared outside \<open>repo/installer.go\<close> and is the parameter
  \<open>W\<close>. A goroutine is where it stands in its code:
  \<^item> \<open>Select\<close>, at the \<open>select\<close> of line 298 (a goroutine that has been started and has
    not run yet stands there too, so all \<open>W\<close> workers exist from the beginning);
  \<^item> \<open>Update dep\<close>, having received \<open>dep\<close>, before \<open>VcsUpdate\<close> returns;
  \<^item> \<open>Failed err\<close>, after \<open>VcsUpdate\<close> has returned \<open>err\<close> and \<open>msg.Warn\<close> has printed,
    before \<open>lock.Lock()\<close>;
  \<^item> \<open>Locked err\<close>, holding the lock, before the assignment to \<open>returnErr\<close>;
  \<^item> \<open>Unlocking\<close>, before \<open>lock.Unlock()\<close>;
  \<^item> \<open>Finish\<close>, before \<open>wg.Done()\<close>;
  \<^item> \<open>Exited\<close>, after the \<open>return\<close> of line 314.
\<close>

datatype worker =
    Select
  | Update Dependency
  | Failed error
  | Locked error
  | Unlocking
  | Finish
  | Exited

text \<open>
  The calling goroutine, after the workers are started: at the head of the loop of line
  320 with the records left, between \<open>wg.Add(1)\<close> and the send of line 322, at
  \<open>wg.Wait()\<close>, in the loop of line 328 with the number of signals left to send, and
  returned with its result.
\<close>

datatype caller =
    Range "Dependency list"
  | Send Dependency "Dependency list"
  | Wait
  | Close nat
  | Returned "error option"

text \<open>
  The shared state: the buffers of the channels \<open>in\<close> and \<open>done\<close> (the signals carry
  nothing, so \<open>done\<close> is their number), the counter of the wait group, the mutex, the
  variable \<open>returnErr\<close>, the calls of \<open>VcsUpdate\<close> that have returned, each with its
  result (\<open>updated\<close>), and the warnings printed.
\<close>

record pool =
  pc :: caller
  workers :: "worker list"
  inCh :: "Dependency list"
  doneCh :: nat
  wg :: int
  lock :: bool
  returnErr :: "error option"
  updated :: "(Dependency \<times> error option) list"
  warned :: "msg list"



























section \<open>The shape of the aggregator's output\<close>

lemma seenOk_empty: "seenOk Map.empty []"
  by (simp add: seenOk_def)

lemma nth_Name_mem: "i < length deps \<Longrightarrow> Name (deps ! i) \<in> Name ` set deps"
  by (rule imageI) (rule nth_mem)

lemma seenOk_None: "seenOk seen deps \<Longrightarrow> seen r = None \<Longrightarrow> r \<notin> Name ` set deps"
proof
  assume ok: "seenOk seen deps" and none: "seen r = None" and mem: "r \<in> Name ` set deps"
  from mem obtain i where "i < length deps" "Name (deps ! i) = r"
    by (auto simp: in_set_conv_nth)
  with ok have "seen r = Some i" by (simp add: seenOk_def)
  with none show False by simp
qed

lemma seenOk_Some: "seenOk seen deps \<Longrightarrow> seen r = Some i \<Longrightarrow> i < length deps \<and> Name (deps ! i) = r"
  unfolding seenOk_def by blast

lemma seenOk_append:
  assumes ok: "seenOk seen deps" and none: "seen r = None" and nm: "Name dd = r"
  shows "seenOk (seen(r \<mapsto> length deps)) (deps @ [dd])"
proof -
  have notin: "r \<notin> Name ` set deps" using seenOk_None [OF ok none] .
  have d: "distinct (map Name (deps @ [dd]))"
    using ok notin nm by (simp add: seenOk_def)
  have "(seen(r \<mapsto> length deps)) r' = Some i \<longleftrightarrow>
          (i < length (deps @ [dd]) \<and> Name ((deps @ [dd]) ! i) = r')" for r' i
  proof (cases "i < length deps")
    case True
    then have "Name (deps ! i) \<noteq> r" using notin nth_Name_mem [of i deps] by auto
    with True ok show ?thesis by (auto simp: seenOk_def nth_append)
  next
    case False
    with ok nm show ?thesis by (auto simp: seenOk_def nth_append less_Suc_eq)
  qed
  with d show ?thesis by (simp add: seenOk_def)
qed

lemma map_Name_update:
  "map Name (deps[i := (deps ! i)\<lparr>Subpackages := sps\<rparr>]) = map Name deps"
  by (cases "i < length deps") (simp_all add: map_update list_update_same_conv list_update_beyond)

lemma seenOk_update:
  assumes ok: "seenOk seen deps"
  shows "seenOk seen (deps[i := (deps ! i)\<lparr>Subpackages := sps\<rparr>])"
proof -
  have "map Name (deps[i := (deps ! i)\<lparr>Subpackages := sps\<rparr>]) = map Name deps"
    by (rule map_Name_update)
  moreover have "Name ((deps[i := (deps ! i)\<lparr>Subpackages := sps\<rparr>]) ! j) = Name (deps ! j)"
    if "j < length deps" for j
    using that by (cases "i = j") simp_all
  ultimately show ?thesis using ok unfolding seenOk_def by auto
qed

lemma filter_notin_removeAll:
  "filter P (removeAll x xs) = filter (\<lambda>y. P y \<and> y \<noteq> x) xs"
  by (induction xs) auto

lemma depsLoop_names:
  "seenOk seen deps \<Longrightarrow>
   map Name (depsLoop N ps seen deps)
     = map Name deps @ filter (\<lambda>r. r \<notin> Name ` set deps) (firstSeen (map fst (map N ps)))"
proof (induction ps arbitrary: seen deps)
  case Nil
  then show ?case by simp
next
  case (Cons p ps)
  obtain rr sp where np: "N p = (rr, sp)" by (cases "N p")
  show ?case
  proof (cases "seen rr")
    case None
    define dd where "dd = \<lparr>Name = rr, Reference = [], Pin = [], Repository = [], VcsType = [],
                        Subpackages = (if sp \<noteq> [] then [sp] else []), Arch = [], Os = []\<rparr>"
    have nm: "Name dd = rr" by (simp add: dd_def)
    have notin: "rr \<notin> Name ` set deps" using seenOk_None [OF Cons.prems None] .
    have ok': "seenOk (seen(rr \<mapsto> length deps)) (deps @ [dd])"
      using seenOk_append [OF Cons.prems None nm] .
    have step: "depsLoop N (p # ps) seen deps = depsLoop N ps (seen(rr \<mapsto> length deps)) (deps @ [dd])"
      using np None by (simp add: dd_def)
    have "(\<lambda>r. r \<notin> Name ` set (deps @ [dd])) = (\<lambda>y. y \<notin> Name ` set deps \<and> y \<noteq> rr)"
      using nm by auto
    then show ?thesis
      unfolding step Cons.IH [OF ok'] using notin nm by (simp add: np filter_notin_removeAll)
  next
    case (Some i)
    have ir: "i < length deps" "Name (deps ! i) = rr" using seenOk_Some [OF Cons.prems Some] by auto
    then have mem: "rr \<in> Name ` set deps" using nth_Name_mem [of i deps] by simp
    have f: "filter (\<lambda>y. y \<notin> Name ` set deps \<and> y \<noteq> rr) xs = filter (\<lambda>y. y \<notin> Name ` set deps) xs" for xs
      by (rule filter_cong) (use mem in auto)
    show ?thesis
    proof (cases "sp = []")
      case True
      then have step: "depsLoop N (p # ps) seen deps = depsLoop N ps seen deps"
        using np Some by simp
      show ?thesis unfolding step Cons.IH [OF Cons.prems] using mem
        by (simp add: np filter_notin_removeAll f)
    next
      case False
      let ?deps' = "deps[i := (deps ! i)\<lparr>Subpackages := Subpackages (deps ! i) @ [sp]\<rparr>]"
      have step: "depsLoop N (p # ps) seen deps = depsLoop N ps seen ?deps'"
        using np Some False by simp
      have nms: "map Name ?deps' = map Name deps"
        by (rule map_Name_update)
      have img: "Name ` set ?deps' = Name ` set deps"
        using arg_cong [OF nms, of set] by simp
      show ?thesis unfolding step Cons.IH [OF seenOk_update [OF Cons.prems]] nms img using mem
        by (simp add: np filter_notin_removeAll f)
    qed
  qed
qed


lemma depsLoop_length: "seenOk seen deps \<Longrightarrow> length deps \<le> length (depsLoop N ps seen deps)"
  using arg_cong [OF depsLoop_names, of seen deps length N ps] by simp

lemma depsLoop_Name_old:
  assumes ok: "seenOk seen deps" and j: "j < length deps"
  shows "Name (depsLoop N ps seen deps ! j) = Name (deps ! j)"
proof -
  have "j < length (depsLoop N ps seen deps)" using depsLoop_length [OF ok, of N ps] j by simp
  then have "Name (depsLoop N ps seen deps ! j) = map Name (depsLoop N ps seen deps) ! j" by simp
  also have "\<dots> = map Name deps ! j" unfolding depsLoop_names [OF ok] using j by (simp add: nth_append)
  finally show ?thesis using j by simp
qed

lemma depsLoop_Name_new:
  assumes ok: "seenOk seen deps" and j: "length deps \<le> j" "j < length (depsLoop N ps seen deps)"
  shows "Name (depsLoop N ps seen deps ! j) \<notin> Name ` set deps"
proof -
  let ?F = "filter (\<lambda>r. r \<notin> Name ` set deps) (firstSeen (map fst (map N ps)))"
  have len: "length (depsLoop N ps seen deps) = length deps + length ?F"
    using arg_cong [OF depsLoop_names [OF ok], of length N ps] by simp
  have "Name (depsLoop N ps seen deps ! j) = map Name (depsLoop N ps seen deps) ! j" using j by simp
  also have "\<dots> = ?F ! (j - length deps)" unfolding depsLoop_names [OF ok] using j by (simp add: nth_append)
  finally have eq: "Name (depsLoop N ps seen deps ! j) = ?F ! (j - length deps)" .
  have "?F ! (j - length deps) \<in> set ?F" by (rule nth_mem) (use j len in simp)
  then have "Name (depsLoop N ps seen deps ! j) \<in> set ?F" unfolding eq .
  then show ?thesis by simp
qed

lemma suffixesOf_Cons:
  "N p = (rr, sp) \<Longrightarrow>
   suffixesOf N (p # ps) r = (if rr = r \<and> sp \<noteq> [] then [sp] else []) @ suffixesOf N ps r"
  by (simp add: suffixesOf_def)

lemma depsLoop_subpackages:
  "seenOk seen deps \<Longrightarrow> i < length (depsLoop N ps seen deps) \<Longrightarrow>
   Subpackages (depsLoop N ps seen deps ! i)
     = (if i < length deps then Subpackages (deps ! i) else [])
       @ suffixesOf N ps (Name (depsLoop N ps seen deps ! i))"
proof (induction ps arbitrary: seen deps)
  case Nil
  then show ?case by (simp add: suffixesOf_def)
next
  case (Cons p ps)
  obtain rr sp where np: "N p = (rr, sp)" by (cases "N p")
  note sc = suffixesOf_Cons [of N p rr sp, OF np]
  show ?case
  proof (cases "seen rr")
    case None
    define dd where "dd = \<lparr>Name = rr, Reference = [], Pin = [], Repository = [], VcsType = [],
                        Subpackages = (if sp \<noteq> [] then [sp] else []), Arch = [], Os = []\<rparr>"
    have nm: "Name dd = rr" and sub: "Subpackages dd = (if sp \<noteq> [] then [sp] else [])"
      by (simp_all add: dd_def)
    have notin: "rr \<notin> Name ` set deps" using seenOk_None [OF Cons.prems(1) None] .
    define seen' where "seen' = seen(rr \<mapsto> length deps)"
    have ok': "seenOk seen' (deps @ [dd])"
      unfolding seen'_def using seenOk_append [OF Cons.prems(1) None nm] .
    have step: "depsLoop N (p # ps) seen deps = depsLoop N ps seen' (deps @ [dd])"
      using np None by (simp add: dd_def seen'_def)
    let ?R = "depsLoop N ps seen' (deps @ [dd])"
    have i: "i < length ?R" using Cons.prems(2) step by simp
    note IH = Cons.IH [OF ok' i]
    consider (old) "i < length deps" | (new) "i = length deps" | (later) "length deps < i" by linarith
    then have "Subpackages (?R ! i)
       = (if i < length deps then Subpackages (deps ! i) else [])
         @ suffixesOf N (p # ps) (Name (?R ! i))"
    proof cases
      case old
      have "Name (?R ! i) = Name (deps ! i)" using depsLoop_Name_old [OF ok', of i N ps] old
        by (simp add: nth_append)
      then have "Name (?R ! i) \<noteq> rr" using notin nth_Name_mem [OF old] by auto
      then show ?thesis using IH old by (simp add: sc nth_append)
    next
      case new
      have "Name (?R ! i) = rr" using depsLoop_Name_old [OF ok', of i N ps] new nm by simp
      then show ?thesis using IH new sub by (simp add: sc)
    next
      case later
      have "Name (?R ! i) \<notin> Name ` set (deps @ [dd])"
        using depsLoop_Name_new [OF ok' _ i] later by simp
      then have "Name (?R ! i) \<noteq> rr" using nm by auto
      then show ?thesis using IH later by (simp add: sc)
    qed
    then show ?thesis unfolding step .
  next
    case (Some k)
    have kr: "k < length deps" "Name (deps ! k) = rr" using seenOk_Some [OF Cons.prems(1) Some] by auto
    show ?thesis
    proof (cases "sp = []")
      case True
      then have step: "depsLoop N (p # ps) seen deps = depsLoop N ps seen deps"
        using np Some by simp
      have i: "i < length (depsLoop N ps seen deps)" using Cons.prems(2) step by simp
      show ?thesis unfolding step using Cons.IH [OF Cons.prems(1) i] True
        by (simp add: sc)
    next
      case False
      let ?deps' = "deps[k := (deps ! k)\<lparr>Subpackages := Subpackages (deps ! k) @ [sp]\<rparr>]"
      let ?R = "depsLoop N ps seen ?deps'"
      have step: "depsLoop N (p # ps) seen deps = ?R"
        using np Some False by simp
      have ok': "seenOk seen ?deps'" using seenOk_update [OF Cons.prems(1)] .
      have i: "i < length ?R" using Cons.prems(2) step by simp
      note IH = Cons.IH [OF ok' i]
      have nms: "map Name ?deps' = map Name deps" by (rule map_Name_update)
      have dist: "distinct (map Name deps)" using Cons.prems(1) by (simp add: seenOk_def)
      consider (same) "i = k" | (old) "i < length deps" "i \<noteq> k" | (later) "length deps \<le> i" by linarith
      then have "Subpackages (?R ! i)
         = (if i < length deps then Subpackages (deps ! i) else [])
           @ suffixesOf N (p # ps) (Name (?R ! i))"
      proof cases
        case same
        have "Name (?R ! i) = rr" using depsLoop_Name_old [OF ok', of i N ps] same kr by simp
        then show ?thesis using IH same kr False by (simp add: sc)
      next
        case old
        have "Name (?R ! i) = Name (deps ! i)" using depsLoop_Name_old [OF ok', of i N ps] old by simp
        moreover have "Name (deps ! i) \<noteq> Name (deps ! k)"
          using dist old kr(1) by (simp add: distinct_conv_nth)
        ultimately have "Name (?R ! i) \<noteq> rr" using kr by simp
        then show ?thesis using IH old by (simp add: sc)
      next
        case later
        have "Name (?R ! i) \<notin> Name ` set ?deps'"
          using depsLoop_Name_new [OF ok' _ i] later by simp
        moreover have "Name ` set ?deps' = Name ` set deps" using arg_cong [OF nms, of set] by simp
        ultimately have "Name (?R ! i) \<noteq> rr" using nth_Name_mem [OF kr(1)] kr(2) by auto
        then show ?thesis using IH later by (simp add: sc)
      qed
      then show ?thesis unfolding step .
    qed
  qed
qed

lemma set_firstSeen: "set (firstSeen xs) = set xs"
  by (induction xs) auto

lemma distinct_firstSeen: "distinct (firstSeen xs)"
  by (induction xs) (auto simp: distinct_removeAll)

text \<open>
  Claim C7, as the code has it. For every list of import paths, \<open>depsFromPackages\<close>
  returns one record for each distinct root, in the order in which the roots are first
  seen, and the subpackages of a record are the non-empty suffixes of the paths of its
  root, in the order of the input, each as often as it occurs there. Duplicates are kept:
  the loop appends without looking at what the list holds.
\<close>

theorem depsFromPackages_shape:
  "map Name (depsFromPackages N pkgs) = firstSeen (map fst (map N pkgs))
   \<and> distinct (map Name (depsFromPackages N pkgs))
   \<and> set (map Name (depsFromPackages N pkgs)) = set (map fst (map N pkgs))
   \<and> (\<forall>dd \<in> set (depsFromPackages N pkgs). Subpackages dd = suffixesOf N pkgs (Name dd))"
proof -
  have names: "map Name (depsFromPackages N pkgs) = firstSeen (map fst (map N pkgs))"
    unfolding depsFromPackages_def depsLoop_names [OF seenOk_empty] by simp
  have subs: "Subpackages dd = suffixesOf N pkgs (Name dd)"
    if "dd \<in> set (depsFromPackages N pkgs)" for dd
  proof -
    from that obtain i where i: "i < length (depsLoop N pkgs Map.empty [])"
      and dd: "dd = depsLoop N pkgs Map.empty [] ! i"
      unfolding depsFromPackages_def by (auto simp: in_set_conv_nth)
    show ?thesis using depsLoop_subpackages [OF seenOk_empty i] dd by simp
  qed
  show ?thesis
    using subs unfolding names by (simp add: distinct_firstSeen set_firstSeen)
qed

theorem depsFromPackages_shape_witness:
  "depsFromPackages splitRoot [''a/x'', ''b/y'', ''a/z''] =
     [\<lparr>Name = ''a'', Reference = [], Pin = [], Repository = [], VcsType = [],
       Subpackages = [''x'', ''z''], Arch = [], Os = []\<rparr>,
      \<lparr>Name = ''b'', Reference = [], Pin = [], Repository = [], VcsType = [],
       Subpackages = [''y''], Arch = [], Os = []\<rparr>]
   \<and> firstSeen (map fst (map splitRoot [''a/x'', ''b/y'', ''a/z''])) = [''a'', ''b'']
   \<and> suffixesOf splitRoot [''a/x'', ''b/y'', ''a/z''] ''a'' = [''x'', ''z'']
   \<and> suffixesOf splitRoot [''a/x'', ''b/y'', ''a/z''] ''b'' = [''y'']"
proof -
  let ?pkgs = "[''a/x'', ''b/y'', ''a/z'']"
  let ?a = "\<lparr>Name = ''a'', Reference = [], Pin = [], Repository = [], VcsType = [],
       Subpackages = [''x'', ''z''], Arch = [], Os = []\<rparr>"
  let ?b = "\<lparr>Name = ''b'', Reference = [], Pin = [], Repository = [], VcsType = [],
       Subpackages = [''y''], Arch = [], Os = []\<rparr>"
  have run: "depsFromPackages splitRoot ?pkgs = [?a, ?b]"
    by (simp add: depsFromPackages_def splitRoot_def)
  have shape:
    "map Name [?a, ?b] = firstSeen (map fst (map splitRoot ?pkgs))
     \<and> (\<forall>dd \<in> set [?a, ?b]. Subpackages dd = suffixesOf splitRoot ?pkgs (Name dd))"
    using depsFromPackages_shape [of splitRoot ?pkgs] unfolding run by blast
  show ?thesis using run shape by simp
qed

text \<open>
  The same path twice gives the same subpackage twice, so the subpackages of a record are
  not free of duplicates.
\<close>

theorem depsFromPackages_keeps_duplicates:
  "map Subpackages (depsFromPackages splitRoot [''a/x'', ''a/x'']) = [[''x'', ''x'']]
   \<and> \<not> distinct [''x'', ''x'']"
  by (simp add: depsFromPackages_def splitRoot_def)

section \<open>Paths that are skipped\<close>

text \<open>
  Claim C8. When the root of an import path is the root package of the handler, or the
  root or the path is on the ignore list, \<open>SetVersion\<close> returns no error and leaves the
  handler, the heap, the messages and the world as they were, and \<open>NotFound\<close> and
  \<open>OnGopath\<close> return \<open>(false, nil)\<close>, print nothing and leave the world as it was,
  whether or not the local source fallback is enabled.
\<close>

theorem skip_is_noop:
  "(skipped X (RootPackage d) pkg \<longrightarrow> SetVersion X w d pkg = Some (d, None, w))
   \<and> (skipped X (MissingPackageHandler.RootPackage m) pkg \<longrightarrow>
        NotFound X m w pkg = ((False, None), w, [])
        \<and> OnGopath X m w pkg = ((False, None), w, []))"
  by (auto simp: skipped_def SetVersion_def NotFound_def OnGopath_def Let_def)

theorem skip_is_noop_witness:
  "skipped X0 (RootPackage (newVersionHandler ''vendor'' ''me'')) ''me/cmd''
   \<and> SetVersion X0 [] (newVersionHandler ''vendor'' ''me'') ''me/cmd''
       = Some (newVersionHandler ''vendor'' ''me'', None, [])
   \<and> skipped X0 (MissingPackageHandler.RootPackage m0) ''ignored/pkg''
   \<and> NotFound X0 m0 [] ''ignored/pkg'' = ((False, None), [], [])
   \<and> OnGopath X0 m0 [] ''ignored/pkg'' = ((False, None), [], [])"
proof -
  have a: "skipped X0 (RootPackage (newVersionHandler ''vendor'' ''me'')) ''me/cmd''"
    by (simp add: skipped_def X0_def splitRoot_def newVersionHandler_def)
  have b: "skipped X0 (MissingPackageHandler.RootPackage m0) ''ignored/pkg''"
    by (simp add: skipped_def X0_def splitRoot_def m0_def)
  show ?thesis
    using a b
      skip_is_noop [of X0 "newVersionHandler ''vendor'' ''me''" "''me/cmd''" "[]" m0]
      skip_is_noop [of X0 "newVersionHandler ''vendor'' ''me''" "''ignored/pkg''" "[]" m0]
    by simp
qed

section \<open>A package that no local source root holds\<close>

lemma gopathLoop_miss:
  "\<forall>gp \<in> set gps. \<not> Stat X w (Join X gp pkg) \<Longrightarrow>
   gopathLoop X w pkg dest gps ms =
     ((False, None), w,
      ms @ [Error ''Could not locate %s on the GOPATH, though it was found before.'' [S pkg]])"
  by (induction gps) simp_all

text \<open>
  Claim C9, as the code has it. With the local source fallback enabled and a path that
  is not skipped, when no entry of the GOPATH holds the path, \<open>OnGopath\<close> prints an
  error message through \<open>msg.Error\<close>, copies nothing and returns \<open>handled = false\<close> with
  the error value \<open>nil\<close>.
\<close>

theorem OnGopath_miss:
  assumes "useGopath m"
    and "\<not> skipped X (MissingPackageHandler.RootPackage m) pkg"
    and "\<forall>gp \<in> set (Gopaths X w). \<not> Stat X w (Join X gp pkg)"
  shows "OnGopath X m w pkg =
     ((False, None), w,
      [Info ''Copying package %s from the GOPATH.'' [S pkg],
       Error ''Could not locate %s on the GOPATH, though it was found before.'' [S pkg]])"
  using assms by (simp add: OnGopath_def skipped_def Let_def gopathLoop_miss)

theorem OnGopath_miss_witness:
  "useGopath m0 \<and> \<not> skipped X0 (MissingPackageHandler.RootPackage m0) ''q/r''
   \<and> Gopaths X0 [] = [''/go/src''] \<and> \<not> Stat X0 [] (Join X0 ''/go/src'' ''q/r'')
   \<and> OnGopath X0 m0 [] ''q/r'' =
     ((False, None), [],
      [Info ''Copying package %s from the GOPATH.'' [S ''q/r''],
       Error ''Could not locate %s on the GOPATH, though it was found before.'' [S ''q/r'']])"
proof -
  have a: "useGopath m0" by (simp add: m0_def)
  have b: "\<not> skipped X0 (MissingPackageHandler.RootPackage m0) ''q/r''"
    by (simp add: skipped_def X0_def splitRoot_def m0_def)
  have g: "Gopaths X0 [] = [''/go/src'']" by (simp add: X0_def)
  have s: "\<not> Stat X0 [] (Join X0 ''/go/src'' ''q/r'')" by (simp add: X0_def)
  have c: "\<forall>gp \<in> set (Gopaths X0 []). \<not> Stat X0 [] (Join X0 gp ''q/r'')"
    using g s by simp
  show ?thesis using a b g s OnGopath_miss [OF a b c] by simp
qed

text \<open>
  At a path that the only entry of the GOPATH does not hold, the error returned is \<open>nil\<close>.
\<close>

theorem OnGopath_miss_returns_no_error:
  "useGopath m0 \<and> \<not> skipped X0 (MissingPackageHandler.RootPackage m0) ''q/r''
   \<and> Gopaths X0 [] = [''/go/src''] \<and> \<not> Stat X0 [] (Join X0 ''/go/src'' ''q/r'')
   \<and> fst (OnGopath X0 m0 [] ''q/r'') = (False, None)"
  by (simp add: OnGopath_def skipped_def X0_def splitRoot_def m0_def)

section \<open>Install and the error of the dispatcher\<close>

text \<open>
  Claim C6 at a lock file with one entry whose update fails: the dispatcher returns an
  error for the imports, and \<open>Install\<close> returns \<open>nil\<close>.
\<close>

theorem Install_drops_update_error:
  "snd (snd (ConcurrentUpdate X0 [] (map fromLock (LockImports lock0)) ''vendor''))
     = Some (Err ''update failed'')
   \<and> snd (fst (Install X0 [] lock0 conf0)) = None"
  by (simp add: Install_def X0_def lock0_def conf0_def fromLock_def)

section \<open>The steps of SetVersion\<close>

lemma useLoop_cases:
  "useLoop h as use r = Some a \<Longrightarrow>
   use r = Some a \<or> (a \<in> set as \<and> Name (h ! a) = r \<and> Reference (h ! a) \<noteq> [])"
proof (induction as arbitrary: use)
  case Nil
  then show ?case by simp
next
  case (Cons b as)
  let ?use = "if Reference (h ! b) \<noteq> [] then use(Name (h ! b) \<mapsto> b) else use"
  from Cons.prems have "useLoop h as ?use r = Some a" by simp
  from Cons.IH [OF this]
  have "?use r = Some a \<or> (a \<in> set as \<and> Name (h ! a) = r \<and> Reference (h ! a) \<noteq> [])" .
  then show ?case by (auto split: if_splits)
qed

lemma useLoop_keeps: "use r \<noteq> None \<Longrightarrow> useLoop h as use r \<noteq> None"
  by (induction as arbitrary: use) auto

lemma useLoop_other:
  "\<forall>a \<in> set as. Name (h ! a) = r \<longrightarrow> Reference (h ! a) = [] \<Longrightarrow> useLoop h as use r = use r"
  by (induction as arbitrary: use) auto

lemma scanRoot_cases:
  assumes "scanRoot X w d root = (d1, e)"
  obtains
    (skip) "root \<in> Imported d" "d1 = d" "e = None"
  | (scan) deps where "root \<notin> Imported d"
      "Import X w (Join X (Destination d) root) = (True, deps, None)"
      "Deps d1 = Deps d" "Conflicts d1 = Conflicts d" "out d1 = out d"
      "RootPackage d1 = RootPackage d" "Destination d1 = Destination d"
      "Imported d1 = insert root (Imported d)"
      "heap d1 = heap d @ deps"
      "Use d1 = useLoop (heap d @ deps) [length (heap d) ..< length (heap d) + length deps] (Use d)"
      "e = None"
  | (fail) f deps er where "root \<notin> Imported d"
      "Import X w (Join X (Destination d) root) = (f, deps, Some er)"
      "Deps d1 = Deps d" "Conflicts d1 = Conflicts d"
      "out d1 = out d @ [Error ''Unable to import from %s. Err: %s'' [S root, E er]]"
      "RootPackage d1 = RootPackage d" "Destination d1 = Destination d"
      "Imported d1 = insert root (Imported d)"
      "heap d1 = heap d @ deps" "Use d1 = Use d" "e = Some er"
  | (none) deps where "root \<notin> Imported d"
      "Import X w (Join X (Destination d) root) = (False, deps, None)"
      "Deps d1 = Deps d" "Conflicts d1 = Conflicts d" "out d1 = out d"
      "RootPackage d1 = RootPackage d" "Destination d1 = Destination d"
      "Imported d1 = insert root (Imported d)"
      "heap d1 = heap d @ deps" "Use d1 = Use d" "e = None"
proof (cases "root \<in> Imported d")
  case True
  with assms have "d1 = d" "e = None" by (simp_all add: scanRoot_def)
  with True show ?thesis by (rule skip)
next
  case False
  obtain f deps err where imp: "Import X w (Join X (Destination d) root) = (f, deps, err)"
    by (cases "Import X w (Join X (Destination d) root)")
  show ?thesis
  proof (cases err)
    case None
    show ?thesis
    proof (cases f)
      case True
      with assms False imp None show ?thesis
        by (intro scan [of deps]) (auto simp: scanRoot_def Let_def)
    next
      case f: False
      with assms False imp None show ?thesis
        by (intro none [of deps]) (auto simp: scanRoot_def Let_def)
    qed
  next
    case (Some er)
    with assms False imp show ?thesis
      by (intro fail [of f deps er]) (auto simp: scanRoot_def Let_def)
  qed
qed

lemma scanRoot_Deps: "scanRoot X w d root = (d1, e) \<Longrightarrow> Deps d1 = Deps d"
  by (erule scanRoot_cases) simp_all

lemma scanRoot_fields:
  "scanRoot X w d root = (d1, e) \<Longrightarrow>
   Conflicts d1 = Conflicts d \<and> RootPackage d1 = RootPackage d \<and> Destination d1 = Destination d"
  by (erule scanRoot_cases) simp_all

lemma scanRoot_heap: "scanRoot X w d root = (d1, e) \<Longrightarrow> \<exists>deps. heap d1 = heap d @ deps"
  by (erule scanRoot_cases) auto

lemma scanRoot_out:
  "scanRoot X w d root = (d1, e) \<Longrightarrow>
   out d1 = out d \<or> (\<exists>f as. out d1 = out d @ [Error f as])"
  by (erule scanRoot_cases) auto

lemma scanRoot_wf:
  assumes sc: "scanRoot X w d root = (d1, e)" and wf: "wf d"
  shows "wf d1"
  using sc
proof (cases rule: scanRoot_cases)
  case skip
  with wf show ?thesis by simp
next
  case (scan deps)
  let ?h = "heap d @ deps"
  let ?as = "[length (heap d) ..< length (heap d) + length deps]"
  have old: "Use d r = Some a \<Longrightarrow> a < length (heap d)" for r a using wf by (auto simp: wf_def)
  have cases: "Use d r = Some a \<or> (length (heap d) \<le> a \<and> a < length ?h \<and> Name (?h ! a) = r)"
    if "Use d1 r = Some a" for r a
    using useLoop_cases [of ?h ?as "Use d" r a] that scan(10) by auto
  have 1: "\<forall>r a. Use d1 r = Some a \<longrightarrow> a < length (heap d1)"
    using cases old scan(9) by fastforce
  have 2: "\<forall>r a. Deps d1 r = Some a \<longrightarrow> a < length (heap d1)"
    using wf scan(3,9) by (auto simp: wf_def trans_less_add1)
  have 3: "\<forall>r r' a. Use d1 r = Some a \<longrightarrow> Use d1 r' = Some a \<longrightarrow> r = r'"
  proof (intro allI impI)
    fix r r' a assume a: "Use d1 r = Some a" "Use d1 r' = Some a"
    show "r = r'"
    proof (cases "a < length (heap d)")
      case True
      with cases [OF a(1)] cases [OF a(2)] have "Use d r = Some a" "Use d r' = Some a" by auto
      with wf show ?thesis unfolding wf_def by blast
    next
      case False
      with cases [OF a(1)] cases [OF a(2)] old show ?thesis by fastforce
    qed
  qed
  have 4: "\<forall>r r' a. Deps d1 r = Some a \<longrightarrow> Use d1 r' = Some a \<longrightarrow> r = r'"
  proof (intro allI impI)
    fix r r' a assume a: "Deps d1 r = Some a" "Use d1 r' = Some a"
    then have "a < length (heap d)" using wf scan(3) by (auto simp: wf_def)
    with cases [OF a(2)] have "Use d r' = Some a" by auto
    with a(1) wf scan(3) show "r = r'" unfolding wf_def by metis
  qed
  have 5: "dom (Deps d1) \<subseteq> dom (Use d1)"
  proof
    fix r assume "r \<in> dom (Deps d1)"
    then have "r \<in> dom (Use d)" using wf scan(3) by (auto simp: wf_def)
    then have "Use d r \<noteq> None" by auto
    then have "Use d1 r \<noteq> None" unfolding scan(10) by (rule useLoop_keeps)
    then show "r \<in> dom (Use d1)" by auto
  qed
  from 1 2 3 4 5 show ?thesis unfolding wf_def by blast
next
  case (fail f deps er)
  with wf show ?thesis by (auto simp: wf_def less_Suc_eq trans_less_add1)
next
  case (none deps)
  with wf show ?thesis by (auto simp: wf_def trans_less_add1)
qed


lemma conflictOf_out [simp]: "conflictOf (d\<lparr>out := ms\<rparr>) root = conflictOf d root"
  by (simp add: conflictOf_def split: option.splits)

lemma conflictOf_total:
  "Use d root \<noteq> None \<Longrightarrow> Deps d root \<noteq> None \<Longrightarrow> conflictOf d root \<noteq> None"
  by (auto simp: conflictOf_def)

lemma alreadyPinned_cases:
  assumes "alreadyPinned d pkg root v e = Some (d2, e2)"
  obtains
    (quiet) "conflictOf d root = Some None \<or> (\<exists>s \<in> Conflicts d. conflictOf d root = Some (Some s))"
      "Deps d2 = Deps d" "Use d2 = Use d" "heap d2 = heap d" "Conflicts d2 = Conflicts d"
      "out d2 = out d @ [Debug ''Package %s is already pinned to %q'' [S pkg, S (Pin (heap d ! v))]]"
      "e2 = e"
  | (warn) s where "conflictOf d root = Some (Some s)" "s \<notin> Conflicts d"
      "Deps d2 = Deps d" "Use d2 = Use d" "heap d2 = heap d"
      "Conflicts d2 = insert s (Conflicts d)"
      "out d2 = out d @ [Debug ''Package %s is already pinned to %q'' [S pkg, S (Pin (heap d ! v))],
                         Warn s []]"
      "e2 = e"
proof (cases "conflictOf d root")
  case None
  with assms show ?thesis by (simp add: alreadyPinned_def)
next
  case (Some c)
  show ?thesis
  proof (cases c)
    case None
    with Some assms show ?thesis by (intro quiet) (auto simp: alreadyPinned_def)
  next
    case (Some s)
    note c = \<open>conflictOf d root = Some c\<close> Some
    show ?thesis
    proof (cases "s \<in> Conflicts d")
      case True
      with c assms show ?thesis by (intro quiet) (auto simp: alreadyPinned_def)
    next
      case False
      with c assms show ?thesis by (intro warn [of s]) (auto simp: alreadyPinned_def)
    qed
  qed
qed

lemma alreadyPinned_total:
  "Use d root \<noteq> None \<Longrightarrow> Deps d root \<noteq> None \<Longrightarrow> alreadyPinned d pkg root v e \<noteq> None"
  using conflictOf_total [of d root]
  by (auto simp: alreadyPinned_def Let_def split: option.splits)

lemma firstPin_cases:
  assumes "firstPin X w d root e = (d2, e2, w2)"
  obtains
    (unknown) "Use d root = None"
      "Deps d2 = Deps d" "Use d2 = Use d" "heap d2 = heap d" "Conflicts d2 = Conflicts d"
      "out d2 = out d @ [Debug ''Unable to set version on %s, version to set unknown'' [S root]]"
      "e2 = e" "w2 = w"
  | (pin) dep dep' where "Use d root = Some dep"
      "VcsVersion X w (heap d ! dep) (Destination d) = (w2, dep', None)"
      "Deps d2 = (Deps d)(root \<mapsto> dep)" "Use d2 = Use d" "heap d2 = (heap d)[dep := dep']"
      "Conflicts d2 = Conflicts d" "out d2 = out d" "e2 = e"
  | (failed) dep dep' er where "Use d root = Some dep"
      "VcsVersion X w (heap d ! dep) (Destination d) = (w2, dep', Some er)"
      "Deps d2 = (Deps d)(root \<mapsto> dep)" "Use d2 = Use d" "heap d2 = (heap d)[dep := dep']"
      "Conflicts d2 = Conflicts d"
      "out d2 = out d @ [Warn ''Unable to set verion on %s to %s. Err: ''
                           [S root, S (Reference ((heap d)[dep := dep'] ! dep)), E er]]"
      "e2 = Some er"
proof (cases "Use d root")
  case None
  with assms show ?thesis by (intro unknown) (auto simp: firstPin_def)
next
  case (Some dep)
  obtain w' dep' err where v: "VcsVersion X w (heap d ! dep) (Destination d) = (w', dep', err)"
    by (cases "VcsVersion X w (heap d ! dep) (Destination d)")
  show ?thesis
  proof (cases err)
    case None
    with Some v assms show ?thesis
      by (intro pin [of dep dep']) (auto simp: firstPin_def Let_def)
  next
    case (Some er)
    with \<open>Use d root = Some dep\<close> v assms show ?thesis
      by (intro failed [of dep dep' er]) (auto simp: firstPin_def Let_def)
  qed
qed

lemma SetVersion_skipped:
  "skipped X (RootPackage d) pkg \<Longrightarrow> SetVersion X w d pkg = Some (d, None, w)"
  by (auto simp: skipped_def SetVersion_def Let_def)

lemma SetVersion_unfold:
  "\<not> skipped X (RootPackage d) pkg \<Longrightarrow> scanRoot X w d (GetRootFromPackage X pkg) = (d1, e) \<Longrightarrow>
   SetVersion X w d pkg =
     (case Deps d (GetRootFromPackage X pkg) of
        Some v \<Rightarrow>
          (case alreadyPinned d1 pkg (GetRootFromPackage X pkg) v e of
             None \<Rightarrow> None
           | Some (d2, e2) \<Rightarrow> Some (d2, e2, w))
      | None \<Rightarrow> Some (firstPin X w d1 (GetRootFromPackage X pkg) e))"
  by (auto simp: skipped_def SetVersion_def Let_def)

lemma SetVersion_cases:
  assumes wf: "wf d"
  obtains
    (skipped) "skipped X (RootPackage d) pkg" "SetVersion X w d pkg = Some (d, None, w)"
  | (pinned) d1 e v d2 where "\<not> skipped X (RootPackage d) pkg"
      "scanRoot X w d (GetRootFromPackage X pkg) = (d1, e)"
      "Deps d (GetRootFromPackage X pkg) = Some v"
      "alreadyPinned d1 pkg (GetRootFromPackage X pkg) v e = Some (d2, e)"
      "SetVersion X w d pkg = Some (d2, e, w)"
  | (unpinned) d1 e d2 e2 w2 where "\<not> skipped X (RootPackage d) pkg"
      "scanRoot X w d (GetRootFromPackage X pkg) = (d1, e)"
      "Deps d (GetRootFromPackage X pkg) = None"
      "firstPin X w d1 (GetRootFromPackage X pkg) e = (d2, e2, w2)"
      "SetVersion X w d pkg = Some (d2, e2, w2)"
proof (cases "skipped X (RootPackage d) pkg")
  case True
  then show ?thesis using SetVersion_skipped [OF True] by (rule skipped)
next
  case False
  let ?root = "GetRootFromPackage X pkg"
  obtain d1 e where sc: "scanRoot X w d ?root = (d1, e)" by (cases "scanRoot X w d ?root")
  note unf = SetVersion_unfold [OF False sc]
  have wf1: "wf d1" using scanRoot_wf [OF sc wf] .
  have deps1: "Deps d1 = Deps d" using scanRoot_Deps [OF sc] .
  show ?thesis
  proof (cases "Deps d ?root")
    case None
    obtain d2 e2 w2 where fp: "firstPin X w d1 ?root e = (d2, e2, w2)"
      by (cases "firstPin X w d1 ?root e")
    show ?thesis using False sc None fp unf by (intro unpinned [of d1 e d2 e2 w2]) simp_all
  next
    case (Some v)
    then have "Deps d1 ?root \<noteq> None" using deps1 by simp
    moreover from this have "Use d1 ?root \<noteq> None" using wf1 by (auto simp: wf_def)
    ultimately have "alreadyPinned d1 pkg ?root v e \<noteq> None" by (intro alreadyPinned_total)
    then obtain d2 e2 where ap: "alreadyPinned d1 pkg ?root v e = Some (d2, e2)" by auto
    then have "e2 = e" by (rule alreadyPinned_cases)
    with ap show ?thesis using False sc Some unf by (intro pinned [of d1 e v d2]) simp_all
  qed
qed

section \<open>Invariants of a run\<close>

lemma wf_same:
  "Deps d2 = Deps d \<Longrightarrow> Use d2 = Use d \<Longrightarrow> length (heap d2) = length (heap d) \<Longrightarrow> wf d \<Longrightarrow> wf d2"
  by (simp add: wf_def)

lemma wf_Use_lt: "wf d \<Longrightarrow> Use d r = Some a \<Longrightarrow> a < length (heap d)"
  unfolding wf_def by blast

lemma wf_Deps_lt: "wf d \<Longrightarrow> Deps d r = Some a \<Longrightarrow> a < length (heap d)"
  unfolding wf_def by blast

lemma wf_Use_inj: "wf d \<Longrightarrow> Use d r = Some a \<Longrightarrow> Use d r' = Some a \<Longrightarrow> r = r'"
  unfolding wf_def by blast

lemma wf_Deps_Use: "wf d \<Longrightarrow> Deps d r = Some a \<Longrightarrow> Use d r' = Some a \<Longrightarrow> r = r'"
  unfolding wf_def by blast

lemma wf_dom: "wf d \<Longrightarrow> Deps d r = Some a \<Longrightarrow> \<exists>u. Use d r = Some u"
  unfolding wf_def by blast

lemma wfI:
  assumes "\<And>r a. Use d r = Some a \<Longrightarrow> a < length (heap d)"
    and "\<And>r a. Deps d r = Some a \<Longrightarrow> a < length (heap d)"
    and "\<And>r r' a. Use d r = Some a \<Longrightarrow> Use d r' = Some a \<Longrightarrow> r = r'"
    and "\<And>r r' a. Deps d r = Some a \<Longrightarrow> Use d r' = Some a \<Longrightarrow> r = r'"
    and "\<And>r a. Deps d r = Some a \<Longrightarrow> \<exists>u. Use d r = Some u"
  shows "wf d"
  unfolding wf_def
proof (intro conjI allI impI)
  show "dom (Deps d) \<subseteq> dom (Use d)"
  proof
    fix r assume "r \<in> dom (Deps d)"
    then obtain a where "Deps d r = Some a" by auto
    from assms(5) [OF this] show "r \<in> dom (Use d)" by auto
  qed
qed (erule assms, (assumption)?)+

lemma wf_pin:
  assumes wf: "wf d" and use: "Use d root = Some dep"
    and d2: "Deps d2 = (Deps d)(root \<mapsto> dep)" "Use d2 = Use d" "length (heap d2) = length (heap d)"
  shows "wf d2"
proof (rule wfI)
  fix r a assume "Use d2 r = Some a"
  then show "a < length (heap d2)" using wf_Use_lt [OF wf, of r a] d2 by simp
next
  fix r a assume a: "Deps d2 r = Some a"
  show "a < length (heap d2)"
  proof (cases "r = root")
    case True
    with a d2 have "a = dep" by simp
    then show ?thesis using wf_Use_lt [OF wf use] d2 by simp
  next
    case False
    with a d2 have "Deps d r = Some a" by simp
    then show ?thesis using wf_Deps_lt [OF wf] d2 by simp
  qed
next
  fix r r' a assume "Use d2 r = Some a" "Use d2 r' = Some a"
  then show "r = r'" using wf_Use_inj [OF wf, of r a r'] d2 by simp
next
  fix r r' a assume a: "Deps d2 r = Some a" "Use d2 r' = Some a"
  show "r = r'"
  proof (cases "r = root")
    case True
    with a d2 have "Use d r' = Some dep" by simp
    from wf_Use_inj [OF wf this use] True show ?thesis by simp
  next
    case False
    with a d2 have "Deps d r = Some a" "Use d r' = Some a" by simp_all
    then show ?thesis by (rule wf_Deps_Use [OF wf])
  qed
next
  fix r a assume a: "Deps d2 r = Some a"
  show "\<exists>u. Use d2 r = Some u"
  proof (cases "r = root")
    case True
    with use d2 show ?thesis by simp
  next
    case False
    with a d2 have "Deps d r = Some a" by simp
    from wf_dom [OF wf this] d2 show ?thesis by simp
  qed
qed

lemma SetVersion_wf:
  assumes wf: "wf d" and sv: "SetVersion X w d pkg = Some (d', e', w')"
  shows "wf d'"
  using wf
proof (cases rule: SetVersion_cases [where X = X and w = w and pkg = pkg])
  case skipped
  with sv wf show ?thesis by simp
next
  case (pinned d1 e v d2)
  have wf1: "wf d1" using scanRoot_wf [OF pinned(2) wf] .
  from pinned(4) have "wf d2" by (rule alreadyPinned_cases) (use wf1 in \<open>auto intro: wf_same\<close>)
  with pinned(5) sv show ?thesis by simp
next
  case (unpinned d1 e d2 e2 w2)
  have wf1: "wf d1" using scanRoot_wf [OF unpinned(2) wf] .
  from unpinned(4) have "wf d2"
  proof (cases rule: firstPin_cases)
    case unknown
    with wf1 show ?thesis by (auto intro: wf_same)
  next
    case (pin dep dep')
    with wf1 show ?thesis by (intro wf_pin [of d1 _ dep d2]) simp_all
  next
    case (failed dep dep' er)
    with wf1 show ?thesis by (intro wf_pin [of d1 _ dep d2]) simp_all
  qed
  with unpinned(5) sv show ?thesis by simp
qed

lemma SetVersion_total: "wf d \<Longrightarrow> \<exists>d' e' w'. SetVersion X w d pkg = Some (d', e', w')"
  by (erule SetVersion_cases [where X = X and w = w and pkg = pkg]) auto

lemma SetVersion_pins_kept:
  assumes wf: "wf d" and sv: "SetVersion X w d pkg = Some (d', e', w')"
    and pin: "Deps d r = Some a"
  shows "Deps d' r = Some a \<and> heap d' ! a = heap d ! a"
  using wf
proof (cases rule: SetVersion_cases [where X = X and w = w and pkg = pkg])
  case skipped
  with sv pin show ?thesis by simp
next
  case (pinned d1 e v d2)
  have a: "a < length (heap d)" using wf pin by (auto simp: wf_def)
  obtain deps where h1: "heap d1 = heap d @ deps" using scanRoot_heap [OF pinned(2)] by auto
  from pinned(4) have "Deps d2 = Deps d \<and> heap d2 = heap d1"
    by (rule alreadyPinned_cases) (simp_all add: scanRoot_Deps [OF pinned(2)])
  with pinned(5) sv pin a h1 show ?thesis by (simp add: nth_append)
next
  case (unpinned d1 e d2 e2 w2)
  let ?root = "GetRootFromPackage X pkg"
  have a: "a < length (heap d)" using wf pin by (auto simp: wf_def)
  obtain deps where h1: "heap d1 = heap d @ deps" using scanRoot_heap [OF unpinned(2)] by auto
  have wf1: "wf d1" using scanRoot_wf [OF unpinned(2) wf] .
  have deps1: "Deps d1 = Deps d" using scanRoot_Deps [OF unpinned(2)] .
  have r: "r \<noteq> ?root" using pin unpinned(3) by auto
  have other: "dep \<noteq> a" if "Use d1 ?root = Some dep" for dep
  proof
    assume "dep = a"
    with that pin deps1 have "Deps d1 r = Some a" "Use d1 ?root = Some a" by simp_all
    with wf1 have "r = ?root" unfolding wf_def by blast
    with r show False by simp
  qed
  from unpinned(4) have "Deps d2 r = Some a \<and> heap d2 ! a = heap d1 ! a"
  proof (cases rule: firstPin_cases)
    case unknown
    with pin deps1 show ?thesis by simp
  next
    case (pin dep dep')
    with \<open>Deps d r = Some a\<close> deps1 r other [OF pin(1)] show ?thesis by simp
  next
    case (failed dep dep' er)
    with \<open>Deps d r = Some a\<close> deps1 r other [OF failed(1)] show ?thesis by simp
  qed
  with unpinned(5) sv a h1 show ?thesis by (simp add: nth_append)
qed

lemma SetVersion_out:
  assumes wf: "wf d" and sv: "SetVersion X w d pkg = Some (d', e', w')"
  shows "\<exists>ms. out d' = out d @ ms"
  using wf
proof (cases rule: SetVersion_cases [where X = X and w = w and pkg = pkg])
  case skipped
  with sv show ?thesis by simp
next
  case (pinned d1 e v d2)
  have "\<exists>ms. out d1 = out d @ ms" using scanRoot_out [OF pinned(2)] by auto
  moreover have "\<exists>ms. out d2 = out d1 @ ms" using pinned(4) by (rule alreadyPinned_cases) simp_all
  ultimately show ?thesis using pinned(5) sv by auto
next
  case (unpinned d1 e d2 e2 w2)
  have "\<exists>ms. out d1 = out d @ ms" using scanRoot_out [OF unpinned(2)] by auto
  moreover have "\<exists>ms. out d2 = out d1 @ ms" using unpinned(4) by (rule firstPin_cases) simp_all
  ultimately show ?thesis using unpinned(5) sv by auto
qed

lemma logOk_quiet:
  assumes "logOk d" "Conflicts d2 = Conflicts d" "out d2 = out d @ ms" "\<forall>s. Warn s [] \<notin> set ms"
  shows "logOk d2"
  using assms by (auto simp: logOk_def)

lemma logOk_warn:
  assumes ok: "logOk d" and new: "s \<notin> Conflicts d"
    and d2: "Conflicts d2 = insert s (Conflicts d)" "out d2 = out d @ ms @ [Warn s []]"
    and ms: "\<forall>s. Warn s [] \<notin> set ms"
  shows "logOk d2"
proof -
  have "Warn s [] \<notin> set (out d)" using ok new by (simp add: logOk_def)
  then have 0: "count_list (out d) (Warn s []) = 0" by (simp add: count_list_0_iff)
  have c: "count_list ms (Warn t []) = 0" for t using ms by (simp add: count_list_0_iff)
  have "count_list (out d2) (Warn t []) \<le> 1" for t
    using ok 0 c [of t] d2 by (cases "t = s") (auto simp: logOk_def)
  moreover have "t \<in> Conflicts d2 \<longleftrightarrow> Warn t [] \<in> set (out d2)" for t
    using ok d2 ms by (auto simp: logOk_def)
  ultimately show ?thesis by (simp add: logOk_def)
qed

lemma scanRoot_logOk:
  assumes "scanRoot X w d root = (d1, e)" "logOk d"
  shows "logOk d1"
  using assms(1)
proof (cases rule: scanRoot_cases)
  case skip
  with assms(2) show ?thesis by simp
next
  case (scan deps)
  show ?thesis by (rule logOk_quiet [OF assms(2) scan(4), of "[]"]) (simp_all add: scan(5))
next
  case (fail f deps er)
  show ?thesis by (rule logOk_quiet [OF assms(2) fail(4) fail(5)]) simp
next
  case (none deps)
  show ?thesis by (rule logOk_quiet [OF assms(2) none(4), of "[]"]) (simp_all add: none(5))
qed

lemma SetVersion_logOk:
  assumes wf: "wf d" and ok: "logOk d" and sv: "SetVersion X w d pkg = Some (d', e', w')"
  shows "logOk d'"
  using wf
proof (cases rule: SetVersion_cases [where X = X and w = w and pkg = pkg])
  case skipped
  with sv ok show ?thesis by simp
next
  case (pinned d1 e v d2)
  have ok1: "logOk d1" using scanRoot_logOk [OF pinned(2) ok] .
  from pinned(4) have "logOk d2"
  proof (cases rule: alreadyPinned_cases)
    case quiet
    show ?thesis by (rule logOk_quiet [OF ok1 quiet(5) quiet(6)]) simp
  next
    case (warn s)
    show ?thesis
      by (rule logOk_warn [OF ok1 warn(2) warn(6),
            of "[Debug ''Package %s is already pinned to %q'' [S pkg, S (Pin (heap d1 ! v))]]"])
         (simp_all add: warn(7))
  qed
  with pinned(5) sv show ?thesis by simp
next
  case (unpinned d1 e d2 e2 w2)
  have ok1: "logOk d1" using scanRoot_logOk [OF unpinned(2) ok] .
  from unpinned(4) have "logOk d2"
  proof (cases rule: firstPin_cases)
    case unknown
    show ?thesis by (rule logOk_quiet [OF ok1 unknown(5) unknown(6)]) simp
  next
    case (pin dep dep')
    show ?thesis by (rule logOk_quiet [OF ok1 pin(6), of "[]"]) (simp_all add: pin(7))
  next
    case (failed dep dep' er)
    show ?thesis by (rule logOk_quiet [OF ok1 failed(6) failed(7)]) simp
  qed
  with unpinned(5) sv show ?thesis by simp
qed

lemma SetVersion_observes:
  assumes wf: "wf d" and ok: "logOk d" and ob: "observes X w d pkg s"
    and sv: "SetVersion X w d pkg = Some (d', e', w')"
  shows "Warn s [] \<in> set (out d')"
  using wf
proof (cases rule: SetVersion_cases [where X = X and w = w and pkg = pkg])
  case skipped
  with ob show ?thesis by (simp add: observes_def)
next
  case (pinned d1 e v d2)
  have c: "conflictOf d1 (GetRootFromPackage X pkg) = Some (Some s)"
    using ob pinned(2) by (simp add: observes_def)
  have ok1: "logOk d1" using scanRoot_logOk [OF pinned(2) ok] .
  from pinned(4) have "Warn s [] \<in> set (out d2)"
  proof (cases rule: alreadyPinned_cases)
    case quiet
    with c have "s \<in> Conflicts d1" by auto
    with ok1 have "Warn s [] \<in> set (out d1)" by (simp add: logOk_def)
    with quiet show ?thesis by simp
  next
    case (warn t)
    with c show ?thesis by simp
  qed
  with pinned(5) sv show ?thesis by simp
next
  case (unpinned d1 e d2 e2 w2)
  with ob show ?thesis by (simp add: observes_def)
qed

lemma SetVersions_append:
  "SetVersions X d (cs1 @ cs2) =
     (case SetVersions X d cs1 of None \<Rightarrow> None | Some d1 \<Rightarrow> SetVersions X d1 cs2)"
  by (induction cs1 arbitrary: d) (auto split: option.splits)

lemma SetVersions_run:
  "wf d \<Longrightarrow>
   \<exists>d'. SetVersions X d calls = Some d' \<and> wf d' \<and> (logOk d \<longrightarrow> logOk d')
     \<and> (\<forall>r a. Deps d r = Some a \<longrightarrow> Deps d' r = Some a \<and> heap d' ! a = heap d ! a)
     \<and> (\<exists>ms. out d' = out d @ ms)"
proof (induction calls arbitrary: d)
  case Nil
  then show ?case by simp
next
  case (Cons c calls)
  obtain w pkg where c: "c = (w, pkg)" by (cases c)
  obtain d1 e1 w1 where sv: "SetVersion X w d pkg = Some (d1, e1, w1)"
    using SetVersion_total [OF Cons.prems, of X w pkg] by blast
  have wf1: "wf d1" using SetVersion_wf [OF Cons.prems sv] .
  from Cons.IH [OF wf1] obtain d' where d':
    "SetVersions X d1 calls = Some d'" "wf d'" "logOk d1 \<longrightarrow> logOk d'"
    "\<forall>r a. Deps d1 r = Some a \<longrightarrow> Deps d' r = Some a \<and> heap d' ! a = heap d1 ! a"
    "\<exists>ms. out d' = out d1 @ ms"
    by blast
  have run: "SetVersions X d (c # calls) = Some d'" using c sv d'(1) by simp
  have ok: "logOk d \<longrightarrow> logOk d'"
  proof
    assume "logOk d"
    from SetVersion_logOk [OF Cons.prems this sv] d'(3) show "logOk d'" by simp
  qed
  have pins: "\<forall>r a. Deps d r = Some a \<longrightarrow> Deps d' r = Some a \<and> heap d' ! a = heap d ! a"
  proof (intro allI impI)
    fix r a assume "Deps d r = Some a"
    from SetVersion_pins_kept [OF Cons.prems sv this]
    have "Deps d1 r = Some a" "heap d1 ! a = heap d ! a" by simp_all
    with d'(4) show "Deps d' r = Some a \<and> heap d' ! a = heap d ! a" by simp
  qed
  have outs: "\<exists>ms. out d' = out d @ ms" using SetVersion_out [OF Cons.prems sv] d'(5) by auto
  from run d'(2) ok pins outs show ?case by blast
qed

lemma wf_new: "wf (newVersionHandler dest rp)"
  by (simp add: wf_def newVersionHandler_def)

lemma logOk_new: "logOk (newVersionHandler dest rp)"
  by (simp add: logOk_def newVersionHandler_def)

text \<open>
  The definitions that the examples unfold.
\<close>

lemmas ev = run0_def v0_def newVersionHandler_def SetVersion_def scanRoot_def alreadyPinned_def
  firstPin_def conflictOf_def conflictMsg_def X0_def splitRoot_def requirement_def Let_def
  skipped_def observes_def

section \<open>What a scan does to the candidates\<close>

lemma useLoop_last:
  "useLoop h as use n =
     (if filter (\<lambda>a. Name (h ! a) = n \<and> Reference (h ! a) \<noteq> []) as = [] then use n
      else Some (last (filter (\<lambda>a. Name (h ! a) = n \<and> Reference (h ! a) \<noteq> []) as)))"
  by (induction as arbitrary: use) auto

lemma heap_new_cells:
  "map (\<lambda>a. (h @ deps) ! a) [length h ..< length h + length deps] = deps"
  by (rule nth_equalityI) (simp_all add: nth_append)

lemma new_requirements:
  "map (\<lambda>a. (h @ deps) ! a)
     (filter (\<lambda>a. P ((h @ deps) ! a)) [length h ..< length h + length deps])
   = filter P deps"
proof -
  have "filter P (map (\<lambda>a. (h @ deps) ! a) [length h ..< length h + length deps])
      = map (\<lambda>a. (h @ deps) ! a)
          (filter (P \<circ> (\<lambda>a. (h @ deps) ! a)) [length h ..< length h + length deps])"
    by (rule filter_map)
  then show ?thesis unfolding heap_new_cells by (simp add: comp_def)
qed

text \<open>
  Claim C3, as the code has it. When \<open>SetVersion\<close> scans a root and \<open>Import\<close> succeeds,
  every name for which the scan read a requirement with a reference gets a new candidate
  in \<open>Use\<close>, the last such requirement read, whether or not that name is in \<open>Deps\<close>;
  the candidates of all other names stay. What the scan leaves alone is \<open>Deps\<close>: a root
  that is pinned keeps its pin.
\<close>

theorem scan_overwrites_candidates:
  assumes "root \<notin> Imported d"
    and "Import X w (Join X (Destination d) root) = (True, deps, None)"
  shows "Deps (fst (scanRoot X w d root)) = Deps d
    \<and> heap (fst (scanRoot X w d root)) = heap d @ deps
    \<and> (\<forall>n. if filter (\<lambda>dep. Name dep = n \<and> Reference dep \<noteq> []) deps = []
            then Use (fst (scanRoot X w d root)) n = Use d n
            else \<exists>u. Use (fst (scanRoot X w d root)) n = Some u
                   \<and> length (heap d) \<le> u \<and> u < length (heap d @ deps)
                   \<and> (heap d @ deps) ! u
                       = last (filter (\<lambda>dep. Name dep = n \<and> Reference dep \<noteq> []) deps))"
proof -
  obtain d1 e where sc: "scanRoot X w d root = (d1, e)" by (cases "scanRoot X w d root")
  let ?h = "heap d @ deps"
  let ?as = "[length (heap d) ..< length (heap d) + length deps]"
  from sc have f: "Deps d1 = Deps d" "heap d1 = ?h" "Use d1 = useLoop ?h ?as (Use d)"
    by (rule scanRoot_cases; use assms in simp)+
  have use: "if filter (\<lambda>dep. Name dep = n \<and> Reference dep \<noteq> []) deps = []
            then Use d1 n = Use d n
            else \<exists>u. Use d1 n = Some u \<and> length (heap d) \<le> u \<and> u < length ?h
                   \<and> ?h ! u = last (filter (\<lambda>dep. Name dep = n \<and> Reference dep \<noteq> []) deps)" for n
  proof -
    let ?P = "\<lambda>dep. Name dep = n \<and> Reference dep \<noteq> []"
    let ?ms = "filter (\<lambda>a. ?P (?h ! a)) ?as"
    have m: "map (\<lambda>a. ?h ! a) ?ms = filter ?P deps" by (rule new_requirements)
    have u: "Use d1 n = (if ?ms = [] then Use d n else Some (last ?ms))"
      unfolding f(3) by (rule useLoop_last)
    show ?thesis
    proof (cases "filter ?P deps = []")
      case True
      with m have "?ms = []" by simp
      with u True show ?thesis by simp
    next
      case False
      with m have ne: "?ms \<noteq> []" by auto
      have "last ?ms \<in> set ?ms" using ne by (rule last_in_set)
      then have "last ?ms \<in> set ?as" by simp
      then have rng: "length (heap d) \<le> last ?ms" "last ?ms < length ?h" by simp_all
      have "?h ! last ?ms = last (map (\<lambda>a. ?h ! a) ?ms)" using ne by (simp add: last_map)
      then have "?h ! last ?ms = last (filter ?P deps)" unfolding m .
      with u ne rng False show ?thesis by simp
    qed
  qed
  show ?thesis unfolding sc fst_conv by (intro conjI allI f(1) f(2) use)
qed


theorem scan_overwrites_candidates_witness:
  "''c'' \<notin> Imported (run0 [([], ''a/x''), ([], ''b'')])
   \<and> Import X0 [] (Join X0 (Destination (run0 [([], ''a/x''), ([], ''b'')])) ''c'')
       = (True, [requirement ''b'' ''v2''], None)
   \<and> Deps (run0 [([], ''a/x''), ([], ''b'')]) ''b'' = Some 0
   \<and> Use (run0 [([], ''a/x''), ([], ''b'')]) ''b'' = Some 0
   \<and> Deps (fst (scanRoot X0 [] (run0 [([], ''a/x''), ([], ''b'')]) ''c'')) ''b'' = Some 0
   \<and> Use (fst (scanRoot X0 [] (run0 [([], ''a/x''), ([], ''b'')]) ''c'')) ''b'' = Some 1
   \<and> heap (fst (scanRoot X0 [] (run0 [([], ''a/x''), ([], ''b'')]) ''c'')) ! 1
       = requirement ''b'' ''v2''"
proof -
  let ?d = "run0 [([], ''a/x''), ([], ''b'')]"
  have a: "''c'' \<notin> Imported ?d" by (simp add: ev)
  have b: "Import X0 [] (Join X0 (Destination ?d) ''c'') = (True, [requirement ''b'' ''v2''], None)"
    by (simp add: ev)
  have c: "Deps ?d ''b'' = Some 0" "Use ?d ''b'' = Some 0" "length (heap ?d) = 1"
    by (simp_all add: ev)
  note t = scan_overwrites_candidates [OF a b]
  have s: "Deps (fst (scanRoot X0 [] ?d ''c'')) = Deps ?d"
    "heap (fst (scanRoot X0 [] ?d ''c'')) = heap ?d @ [requirement ''b'' ''v2'']"
    using t by blast+
  from t have "if filter (\<lambda>dep. Name dep = ''b'' \<and> Reference dep \<noteq> []) [requirement ''b'' ''v2''] = []
            then Use (fst (scanRoot X0 [] ?d ''c'')) ''b'' = Use ?d ''b''
            else \<exists>u. Use (fst (scanRoot X0 [] ?d ''c'')) ''b'' = Some u
                   \<and> length (heap ?d) \<le> u \<and> u < length (heap ?d @ [requirement ''b'' ''v2''])
                   \<and> (heap ?d @ [requirement ''b'' ''v2'']) ! u
                       = last (filter (\<lambda>dep. Name dep = ''b'' \<and> Reference dep \<noteq> [])
                                [requirement ''b'' ''v2''])"
    by blast
  then have "\<exists>u. Use (fst (scanRoot X0 [] ?d ''c'')) ''b'' = Some u \<and> length (heap ?d) \<le> u
        \<and> u < length (heap ?d @ [requirement ''b'' ''v2''])"
    by (simp add: requirement_def) blast
  note s = s this
  from s(3) c(3) have "Use (fst (scanRoot X0 [] ?d ''c'')) ''b'' = Some 1" by auto
  with a b c s(1,2) show ?thesis by (simp add: nth_append)
qed

text \<open>
  After the calls for \<open>a/x\<close> and \<open>b\<close> the root \<open>b\<close> is pinned, and the scan of \<open>c\<close>
  gives it another candidate.
\<close>

theorem scan_changes_candidate_of_pinned_root:
  "Deps (run0 [([], ''a/x''), ([], ''b'')]) ''b'' = Some 0
   \<and> Use (run0 [([], ''a/x''), ([], ''b'')]) ''b'' = Some 0
   \<and> GetRootFromPackage X0 ''c'' = ''c''
   \<and> Use (fst (scanRoot X0 [] (run0 [([], ''a/x''), ([], ''b'')]) ''c'')) ''b'' = Some 1
   \<and> Use (run0 [([], ''a/x''), ([], ''b''), ([], ''c'')]) ''b'' = Some 1"
  by (simp add: ev)

section \<open>Runs from a new handler\<close>

text \<open>
  Claim C10. Every run of calls of \<open>SetVersion\<close> on a new handler returns, so no call
  of it dereferences a missing entry of \<open>Use\<close>, and in the state it leaves every root
  in \<open>Deps\<close> is in \<open>Use\<close>.
\<close>

theorem pinned_has_candidate:
  "\<exists>d. SetVersions X (newVersionHandler dest rp) calls = Some d
       \<and> dom (Deps d) \<subseteq> dom (Use d)"
proof -
  from SetVersions_run [OF wf_new, of X dest rp calls]
  obtain d where "SetVersions X (newVersionHandler dest rp) calls = Some d" "wf d" by blast
  then show ?thesis by (auto simp: wf_def)
qed

theorem pinned_has_candidate_witness:
  "SetVersions X0 v0 [([], ''a/x''), ([], ''b''), ([], ''c''), ([], ''b/s'')]
     = Some (run0 [([], ''a/x''), ([], ''b''), ([], ''c''), ([], ''b/s'')])
   \<and> dom (Deps (run0 [([], ''a/x''), ([], ''b''), ([], ''c''), ([], ''b/s'')]))
       \<subseteq> dom (Use (run0 [([], ''a/x''), ([], ''b''), ([], ''c''), ([], ''b/s'')]))
   \<and> Deps (run0 [([], ''a/x''), ([], ''b''), ([], ''c''), ([], ''b/s'')]) ''b'' = Some 0
   \<and> Use (run0 [([], ''a/x''), ([], ''b''), ([], ''c''), ([], ''b/s'')]) ''b'' = Some 1"
proof -
  let ?cs = "[([], ''a/x''), ([], ''b''), ([], ''c''), ([], ''b/s'')]"
  from pinned_has_candidate [of X0 "''vendor''" "''me''" ?cs]
  obtain d where d: "SetVersions X0 v0 ?cs = Some d" "dom (Deps d) \<subseteq> dom (Use d)"
    unfolding v0_def by blast
  then have r: "run0 ?cs = d" by (simp add: run0_def)
  have v: "Deps (run0 ?cs) ''b'' = Some 0" "Use (run0 ?cs) ''b'' = Some 1" by (simp_all add: ev)
  show ?thesis using d v unfolding r by simp
qed

text \<open>
  Claim C1. Once a run from a new handler has put a root in \<open>Deps\<close>, every further run of
  calls, for import paths of that root or of any other, returns and leaves the root with
  the same pointer in \<open>Deps\<close> and the record it points to unchanged, its \<open>Pin\<close> and
  \<open>Reference\<close> among the rest, whatever the scans store in \<open>Use\<close>.
\<close>

theorem pin_never_changes:
  assumes "SetVersions X (newVersionHandler dest rp) before = Some d1"
    and "Deps d1 r = Some a"
  shows "\<exists>d2. SetVersions X d1 after = Some d2
       \<and> SetVersions X (newVersionHandler dest rp) (before @ after) = Some d2
       \<and> Deps d2 r = Some a \<and> heap d2 ! a = heap d1 ! a"
proof -
  from SetVersions_run [OF wf_new, of X dest rp before] assms(1) have wf1: "wf d1" by auto
  from SetVersions_run [OF wf1, of X after] assms(2)
  obtain d2 where d2: "SetVersions X d1 after = Some d2" "Deps d2 r = Some a"
    "heap d2 ! a = heap d1 ! a" by blast
  have "SetVersions X (newVersionHandler dest rp) (before @ after) = Some d2"
    using assms(1) d2(1) by (simp add: SetVersions_append)
  with d2 show ?thesis by blast
qed

theorem pin_never_changes_witness:
  "SetVersions X0 (newVersionHandler ''vendor'' ''me'') [([], ''a/x''), ([], ''b'')]
     = Some (run0 [([], ''a/x''), ([], ''b'')])
   \<and> Deps (run0 [([], ''a/x''), ([], ''b'')]) ''b'' = Some 0
   \<and> Pin (heap (run0 [([], ''a/x''), ([], ''b'')]) ! 0) = ''rev-v1''
   \<and> SetVersions X0 (run0 [([], ''a/x''), ([], ''b'')]) [([], ''c''), ([], ''b/s'')]
       = Some (run0 ([([], ''a/x''), ([], ''b'')] @ [([], ''c''), ([], ''b/s'')]))
   \<and> Reference (heap (run0 ([([], ''a/x''), ([], ''b'')] @ [([], ''c''), ([], ''b/s'')]))
        ! the (Use (run0 ([([], ''a/x''), ([], ''b'')] @ [([], ''c''), ([], ''b/s'')])) ''b''))
       = ''v2''
   \<and> Deps (run0 ([([], ''a/x''), ([], ''b'')] @ [([], ''c''), ([], ''b/s'')])) ''b'' = Some 0
   \<and> heap (run0 ([([], ''a/x''), ([], ''b'')] @ [([], ''c''), ([], ''b/s'')])) ! 0
       = heap (run0 [([], ''a/x''), ([], ''b'')]) ! 0"
proof -
  let ?before = "[([], ''a/x''), ([], ''b'')]"
  let ?after = "[([], ''c''), ([], ''b/s'')]"
  have b: "SetVersions X0 (newVersionHandler ''vendor'' ''me'') ?before = Some (run0 ?before)"
    by (simp add: ev)
  have p: "Deps (run0 ?before) ''b'' = Some 0" "Pin (heap (run0 ?before) ! 0) = ''rev-v1''"
    by (simp_all add: ev)
  from pin_never_changes [OF b p(1), of ?after]
  obtain d2 where d2: "SetVersions X0 (run0 ?before) ?after = Some d2"
    "SetVersions X0 (newVersionHandler ''vendor'' ''me'') (?before @ ?after) = Some d2"
    "Deps d2 ''b'' = Some 0" "heap d2 ! 0 = heap (run0 ?before) ! 0" by blast
  from d2(2) have r: "run0 (?before @ ?after) = d2" by (simp only: run0_def v0_def option.sel)
  have u: "Reference (heap (run0 (?before @ ?after)) ! the (Use (run0 (?before @ ?after)) ''b''))
       = ''v2''" by (simp add: ev)
  show ?thesis using b p d2 u unfolding r by simp
qed


text \<open>
  Claim C2. In a run from a new handler, when a call observes a conflict, then at the end
  of the run, however many later calls observe the same conflict, its message has been
  printed by \<open>msg.Warn\<close> exactly once and is in the set of reported conflicts, where
  every later observation finds it.
\<close>

theorem conflict_reported_once:
  assumes "SetVersions X (newVersionHandler dest rp) before = Some d1"
    and "observes X w d1 pkg s"
  shows "\<exists>d2. SetVersions X (newVersionHandler dest rp) (before @ (w, pkg) # after) = Some d2
       \<and> count_list (out d2) (Warn s []) = 1 \<and> s \<in> Conflicts d2"
proof -
  from SetVersions_run [OF wf_new, of X dest rp before] assms(1) logOk_new [of dest rp]
  have wf1: "wf d1" and ok1: "logOk d1" by auto
  obtain d' e' w' where sv: "SetVersion X w d1 pkg = Some (d', e', w')"
    using SetVersion_total [OF wf1, of X w pkg] by blast
  have wf': "wf d'" using SetVersion_wf [OF wf1 sv] .
  have ok': "logOk d'" using SetVersion_logOk [OF wf1 ok1 sv] .
  have seen: "Warn s [] \<in> set (out d')" using SetVersion_observes [OF wf1 ok1 assms(2) sv] .
  from SetVersions_run [OF wf', of X after] ok'
  obtain d2 ms where d2: "SetVersions X d' after = Some d2" "logOk d2" "out d2 = out d' @ ms"
    by blast
  have run: "SetVersions X (newVersionHandler dest rp) (before @ (w, pkg) # after) = Some d2"
    using assms(1) sv d2(1) by (simp add: SetVersions_append)
  have mem: "Warn s [] \<in> set (out d2)" using seen d2(3) by simp
  then have rec: "s \<in> Conflicts d2" using d2(2) by (simp add: logOk_def)
  from mem have "count_list (out d2) (Warn s []) \<noteq> 0" by (simp add: count_list_0_iff)
  moreover have "count_list (out d2) (Warn s []) \<le> 1" using d2(2) by (simp add: logOk_def)
  ultimately have "count_list (out d2) (Warn s []) = 1" by linarith
  with run rec show ?thesis by blast
qed

theorem conflict_reported_once_witness:
  "SetVersions X0 (newVersionHandler ''vendor'' ''me'') [([], ''a/x''), ([], ''b''), ([], ''c'')]
     = Some (run0 [([], ''a/x''), ([], ''b''), ([], ''c'')])
   \<and> observes X0 [] (run0 [([], ''a/x''), ([], ''b''), ([], ''c'')]) ''b/s''
        (conflictMsg ''b'' ''rev-v1'' ''v2'')
   \<and> observes X0 [] (run0 [([], ''a/x''), ([], ''b''), ([], ''c''), ([], ''b/s'')]) ''b/t''
        (conflictMsg ''b'' ''rev-v1'' ''v2'')
   \<and> SetVersions X0 (newVersionHandler ''vendor'' ''me'')
        ([([], ''a/x''), ([], ''b''), ([], ''c'')] @ ([], ''b/s'') # [([], ''b/t'')])
       = Some (run0 ([([], ''a/x''), ([], ''b''), ([], ''c'')] @ ([], ''b/s'') # [([], ''b/t'')]))
   \<and> count_list
        (out (run0 ([([], ''a/x''), ([], ''b''), ([], ''c'')] @ ([], ''b/s'') # [([], ''b/t'')])))
        (Warn (conflictMsg ''b'' ''rev-v1'' ''v2'') []) = 1"
proof -
  let ?before = "[([], ''a/x''), ([], ''b''), ([], ''c'')]"
  let ?all = "?before @ ([], ''b/s'') # [([], ''b/t'')]"
  have b: "SetVersions X0 (newVersionHandler ''vendor'' ''me'') ?before = Some (run0 ?before)"
    by (simp add: ev)
  have o1: "observes X0 [] (run0 ?before) ''b/s'' (conflictMsg ''b'' ''rev-v1'' ''v2'')"
    by (simp add: ev)
  have o2: "observes X0 [] (run0 [([], ''a/x''), ([], ''b''), ([], ''c''), ([], ''b/s'')]) ''b/t''
        (conflictMsg ''b'' ''rev-v1'' ''v2'')"
    by (simp add: ev)
  from conflict_reported_once [OF b o1, of "[([], ''b/t'')]"]
  obtain d2 where d2: "SetVersions X0 (newVersionHandler ''vendor'' ''me'') ?all = Some d2"
    "count_list (out d2) (Warn (conflictMsg ''b'' ''rev-v1'' ''v2'') []) = 1" by blast
  from d2(1) have r: "run0 ?all = d2" by (simp only: run0_def v0_def option.sel)
  show ?thesis using b o1 o2 d2 unfolding r by simp
qed

section \<open>The first pin of a root\<close>

text \<open>
  Claim C4, as the code has it. When a call is not skipped, its root is not pinned and,
  after the scan, has a candidate, \<open>SetVersion\<close> calls \<open>VcsVersion\<close> on the candidate and
  then stores the candidate in \<open>Deps\<close>, whether \<open>VcsVersion\<close> fails or not. The error
  returned is that of \<open>VcsVersion\<close> when it fails and that of the scan otherwise.
\<close>

theorem version_set_then_pin:
  assumes "\<not> skipped X (RootPackage d) pkg"
    and "Deps d (GetRootFromPackage X pkg) = None"
    and "scanRoot X w d (GetRootFromPackage X pkg) = (d1, e)"
    and "Use d1 (GetRootFromPackage X pkg) = Some dep"
    and "VcsVersion X w (heap d1 ! dep) (Destination d1) = (w', dep', err)"
  shows "\<exists>d'. SetVersion X w d pkg
               = Some (d', (case err of None \<Rightarrow> e | Some er \<Rightarrow> Some er), w')
       \<and> Deps d' = (Deps d)(GetRootFromPackage X pkg \<mapsto> dep)
       \<and> heap d' = (heap d1)[dep := dep']"
proof -
  let ?root = "GetRootFromPackage X pkg"
  obtain d2 e2 w2 where fp: "firstPin X w d1 ?root e = (d2, e2, w2)"
    by (cases "firstPin X w d1 ?root e")
  have sv: "SetVersion X w d pkg = Some (d2, e2, w2)"
    using SetVersion_unfold [OF assms(1) assms(3)] assms(2) fp by simp
  have deps1: "Deps d1 = Deps d" using scanRoot_Deps [OF assms(3)] .
  from fp have "e2 = (case err of None \<Rightarrow> e | Some er \<Rightarrow> Some er) \<and> w2 = w'
      \<and> Deps d2 = (Deps d)(?root \<mapsto> dep) \<and> heap d2 = (heap d1)[dep := dep']"
    by (cases rule: firstPin_cases) (use assms(4,5) deps1 in auto)
  with sv show ?thesis by simp
qed

theorem version_set_then_pin_witness:
  "\<not> skipped X0 (RootPackage (run0 [([], ''e'')])) ''f''
   \<and> Deps (run0 [([], ''e'')]) (GetRootFromPackage X0 ''f'') = None
   \<and> Use (fst (scanRoot X0 [] (run0 [([], ''e'')]) (GetRootFromPackage X0 ''f'')))
        (GetRootFromPackage X0 ''f'') = Some 0
   \<and> VcsVersion X0 [] (heap (fst (scanRoot X0 [] (run0 [([], ''e'')]) ''f'')) ! 0) ''vendor''
       = ([], requirement ''f'' ''gone'', Some (Err ''no such revision''))
   \<and> map_option snd (SetVersion X0 [] (run0 [([], ''e'')]) ''f'')
       = Some (Some (Err ''no such revision''), [])
   \<and> map_option (\<lambda>r. Deps (fst r) ''f'') (SetVersion X0 [] (run0 [([], ''e'')]) ''f'')
       = Some (Some 0)"
proof -
  let ?d = "run0 [([], ''e'')]"
  let ?d1 = "fst (scanRoot X0 [] ?d (GetRootFromPackage X0 ''f''))"
  have a: "\<not> skipped X0 (RootPackage ?d) ''f''" by (simp add: ev)
  have b: "Deps ?d (GetRootFromPackage X0 ''f'') = None" by (simp add: ev)
  have c: "scanRoot X0 [] ?d (GetRootFromPackage X0 ''f'') = (?d1, None)" by (simp add: ev)
  have u: "Use ?d1 (GetRootFromPackage X0 ''f'') = Some 0" by (simp add: ev)
  have v: "VcsVersion X0 [] (heap ?d1 ! 0) (Destination ?d1)
       = ([], requirement ''f'' ''gone'', Some (Err ''no such revision''))"
    by (simp add: ev)
  from version_set_then_pin [OF a b c u v]
  obtain d' where d': "SetVersion X0 [] ?d ''f'' = Some (d', Some (Err ''no such revision''), [])"
    "Deps d' = (Deps ?d)(GetRootFromPackage X0 ''f'' \<mapsto> 0)" by auto
  have g: "GetRootFromPackage X0 ''f'' = ''f''" by (simp add: ev)
  have v': "VcsVersion X0 [] (heap (fst (scanRoot X0 [] ?d ''f'')) ! 0) ''vendor''
       = ([], requirement ''f'' ''gone'', Some (Err ''no such revision''))"
    by (simp add: ev)
  show ?thesis using a b u v' d' by (simp add: g)
qed

text \<open>
  The root \<open>f\<close> has the candidate \<open>gone\<close>, for which \<open>VcsVersion\<close> fails: the call
  returns the error and \<open>f\<close> is in \<open>Deps\<close> after it.
\<close>

theorem failed_version_set_still_pins:
  "Deps (run0 [([], ''e'')]) ''f'' = None
   \<and> Use (run0 [([], ''e'')]) ''f'' = Some 0
   \<and> snd (snd (VcsVersion X0 [] (heap (run0 [([], ''e'')]) ! 0) ''vendor''))
       = Some (Err ''no such revision'')
   \<and> map_option snd (SetVersion X0 [] (run0 [([], ''e'')]) ''f'')
       = Some (Some (Err ''no such revision''), [])
   \<and> Deps (run0 [([], ''e''), ([], ''f'')]) ''f'' = Some 0"
  by (simp add: ev)

section \<open>The invariant of the dispatcher\<close>



























section \<open>The dispatcher returns\<close>


























end
